theory Spec2Isabelle
  imports Complex_Main "HOL-Library.Word" "HOL-Library.Log_Nat"
begin

unbundle bit_operations_syntax

section \<open>Conventions of the embedding\<close>

text \<open>
  The repository holds three C89 programs: \<^verbatim>\<open>plasma.c\<close> (diamond-square terrain,
  normalised to 0..1), \<^verbatim>\<open>geo.c\<close> (clamped diamond-square terrain with a water mask) and
  \<^verbatim>\<open>iso.c\<close> (isometric rasteriser). Their functions are embedded as follows.

  \<^item> A C \<^verbatim>\<open>double\<close> is a \<^typ>\<open>real\<close>: finite values with exact arithmetic. Rounding,
    infinities and NaN are outside the model.
  \<^item> A C \<^verbatim>\<open>int\<close> or \<^verbatim>\<open>long\<close> is an \<^typ>\<open>int\<close>; where the source shifts a 32-bit
    \<^verbatim>\<open>int\<close> the shift width is checked. The generator state of \<^verbatim>\<open>geo.c\<close>, an
    \<^verbatim>\<open>unsigned long\<close>, is a 64-bit word.
  \<^item> An array is a list. A read or a write outside the array (also past the capacity
    of the flood queue), a division by zero that feeds an integer conversion and a shift
    past the width of \<^verbatim>\<open>int\<close> are undefined behaviour in C; the model returns the
    corresponding \<open>fault\<close> there instead of a value.
  \<^item> A \<^verbatim>\<open>for\<close> loop over a fixed index range is \<open>for_each\<close> over the list of its
    indices, the loop body threading the state and stopping at the first fault.
\<close>

datatype fault = OutOfBounds | DivisionByZero | ShiftOverflow

definition rd :: "'a list \<Rightarrow> int \<Rightarrow> fault + 'a" where
  "rd xs i = (if 0 \<le> i \<and> i < int (length xs) then Inr (xs ! nat i) else Inl OutOfBounds)"

definition wr :: "'a list \<Rightarrow> int \<Rightarrow> 'a \<Rightarrow> fault + 'a list" where
  "wr xs i v = (if 0 \<le> i \<and> i < int (length xs) then Inr (xs[nat i := v]) else Inl OutOfBounds)"

definition thenf :: "fault + 'a \<Rightarrow> ('a \<Rightarrow> fault + 'b) \<Rightarrow> fault + 'b" where
  "thenf m k = (case m of Inl e \<Rightarrow> Inl e | Inr a \<Rightarrow> k a)"

fun for_each :: "'i list \<Rightarrow> ('i \<Rightarrow> 's \<Rightarrow> fault + 's) \<Rightarrow> 's \<Rightarrow> fault + 's" where
  "for_each [] body s = Inr s"
| "for_each (i # is) body s = thenf (body i s) (for_each is body)"

text \<open>Filling a fresh buffer cell by cell: the values in order, or the first fault.\<close>

fun collect :: "(fault + 'a) list \<Rightarrow> fault + 'a list" where
  "collect [] = Inr []"
| "collect (m # ms) = thenf m (\<lambda>a. thenf (collect ms) (\<lambda>as. Inr (a # as)))"

lemma thenf_Inr [simp]: "thenf (Inr a) k = k a"
  by (simp add: thenf_def)

lemma thenf_Inl [simp]: "thenf (Inl e) k = Inl e"
  by (simp add: thenf_def)

lemma thenf_eq_Inr: "thenf m k = Inr b \<longleftrightarrow> (\<exists>a. m = Inr a \<and> k a = Inr b)"
  by (cases m) auto

lemma rd_in_range: "0 \<le> i \<Longrightarrow> i < int (length xs) \<Longrightarrow> rd xs i = Inr (xs ! nat i)"
  by (simp add: rd_def)

lemma collect_map_Inr:
  "(\<And>x. x \<in> set xs \<Longrightarrow> g x = Inr (f x)) \<Longrightarrow> collect (map g xs) = Inr (map f xs)"
  by (induction xs) auto

section \<open>Side of the synthesis grid\<close>

text \<open>
  \<^verbatim>\<open>plasma.c\<close>, \<^verbatim>\<open>pow2plus1_at_least\<close>: \<^verbatim>\<open>side\<close> starts at 1 and is doubled while it is
  below \<^verbatim>\<open>target\<close>. The loop is a partial function: that it returns is part of what is
  proved about it.
\<close>

partial_function (option) pow2_loop :: "int \<Rightarrow> int \<Rightarrow> int option" where
  "pow2_loop side target = (if side < target then pow2_loop (side * 2) target else Some side)"

declare pow2_loop.simps [code]

definition pow2plus1_at_least :: "int \<Rightarrow> int option" where
  "pow2plus1_at_least need =
     (let target = (if need \<le> 1 then 1 else need - 1)
      in map_option (\<lambda>side. side + 1) (pow2_loop 1 target))"

text \<open>
  \<^verbatim>\<open>geo.c\<close>, \<^verbatim>\<open>main\<close>: \<^verbatim>\<open>int n = 1; while (((1<<n) + 1) < maxdim) n++;\<close> and then
  \<^verbatim>\<open>P = (1<<n) + 1\<close>. The shift \<^verbatim>\<open>1<<n\<close> of a 32-bit \<^verbatim>\<open>int\<close> is defined for
  \<open>n \<le> 30\<close> only.
\<close>

function geo_n_loop :: "int \<Rightarrow> nat \<Rightarrow> fault + nat" where
  "geo_n_loop maxdim n =
     (if 31 \<le> n then Inl ShiftOverflow
      else if 2 ^ n + 1 < maxdim then geo_n_loop maxdim (n + 1)
      else Inr n)"
  by pat_completeness auto
termination
  by (relation "measure (\<lambda>(maxdim, n). 31 - n)") auto

declare geo_n_loop.simps [simp del]

definition geo_side :: "int \<Rightarrow> int \<Rightarrow> fault + int" where
  "geo_side W H =
     (let maxdim = (if W > H then W else H)
      in case geo_n_loop maxdim 1 of Inl e \<Rightarrow> Inl e | Inr n \<Rightarrow> Inr (2 ^ n + 1))"

lemma pow2_loop_total:
  "0 < side \<Longrightarrow>
   \<exists>m. pow2_loop side target = Some (side * 2 ^ m) \<and> target \<le> side * 2 ^ m
       \<and> (\<forall>k<m. side * 2 ^ k < target)"
proof (induction "nat (target - side)" arbitrary: side rule: less_induct)
  case less
  show ?case
  proof (cases "side < target")
    case False
    then have "pow2_loop side target = Some (side * 2 ^ 0)"
      by (subst pow2_loop.simps) simp
    moreover have "target \<le> side * 2 ^ 0" using False by simp
    ultimately show ?thesis by blast
  next
    case True
    have "nat (target - side * 2) < nat (target - side)" using True less.prems by linarith
    from less.hyps [OF this] less.prems
    obtain m where m: "pow2_loop (side * 2) target = Some (side * 2 * 2 ^ m)"
      "target \<le> side * 2 * 2 ^ m" "\<forall>k<m. side * 2 * 2 ^ k < target"
      by auto
    have a: "pow2_loop side target = Some (side * 2 ^ Suc m)"
      using True m(1) by (subst pow2_loop.simps) (simp add: mult.assoc)
    have b: "target \<le> side * 2 ^ Suc m" using m(2) by (simp add: mult.assoc)
    have c: "\<forall>k<Suc m. side * 2 ^ k < target"
    proof (intro allI impI)
      fix k assume "k < Suc m"
      show "side * 2 ^ k < target"
      proof (cases k)
        case 0 then show ?thesis using True by simp
      next
        case (Suc j)
        then have "j < m" using \<open>k < Suc m\<close> by simp
        then show ?thesis using m(3) Suc by (simp add: mult.assoc)
      qed
    qed
    from a b c show ?thesis by blast
  qed
qed

lemma geo_n_loop_min:
  "n \<le> 30 \<Longrightarrow> maxdim \<le> 2 ^ 30 + 1 \<Longrightarrow>
   \<exists>m. geo_n_loop maxdim n = Inr m \<and> n \<le> m \<and> m \<le> 30 \<and> maxdim - 1 \<le> 2 ^ m
       \<and> (\<forall>k. n \<le> k \<and> k < m \<longrightarrow> 2 ^ k < maxdim - 1)"
proof (induction maxdim n rule: geo_n_loop.induct)
  case (1 maxdim n)
  show ?case
  proof (cases "(2::int) ^ n + 1 < maxdim")
    case False
    then have "geo_n_loop maxdim n = Inr n" using "1.prems"(1) by (subst geo_n_loop.simps) simp
    moreover have "maxdim - 1 \<le> 2 ^ n" using False by simp
    ultimately show ?thesis using "1.prems"(1) by auto
  next
    case True
    have "n \<noteq> 30" using True "1.prems"(2) by auto
    then have n: "n + 1 \<le> 30" "\<not> 31 \<le> n" using "1.prems"(1) by auto
    from "1.IH" [OF n(2) True n(1) "1.prems"(2)]
    obtain m where m: "geo_n_loop maxdim (n + 1) = Inr m" "n + 1 \<le> m" "m \<le> 30"
      "maxdim - 1 \<le> 2 ^ m" "\<forall>k. n + 1 \<le> k \<and> k < m \<longrightarrow> 2 ^ k < maxdim - 1"
      by auto
    have "\<forall>k. n \<le> k \<and> k < m \<longrightarrow> 2 ^ k < maxdim - 1"
    proof (intro allI impI)
      fix k assume k: "n \<le> k \<and> k < m"
      show "2 ^ k < maxdim - 1"
      proof (cases "k = n")
        case True then show ?thesis using \<open>2 ^ n + 1 < maxdim\<close> by simp
      next
        case False then show ?thesis using m(5) k by simp
      qed
    qed
    moreover have "geo_n_loop maxdim n = Inr m"
      using True n(2) m(1) by (subst geo_n_loop.simps) simp
    moreover have "n \<le> m" using m(2) by simp
    ultimately show ?thesis using m(3,4) by blast
  qed
qed




section \<open>Normalisation of the plasma grid\<close>

text \<open>
  \<^verbatim>\<open>plasma.c\<close>, \<^verbatim>\<open>normalize01\<close>. The array and its length \<^verbatim>\<open>N\<close> are one list. The
  first loop scans cells \<open>1 .. N - 1\<close> for the minimum and the maximum, starting both at
  \<^verbatim>\<open>grid[0]\<close>, which is read whatever \<^verbatim>\<open>N\<close> is.
\<close>

fun minmax_scan :: "real list \<Rightarrow> real \<times> real \<Rightarrow> real \<times> real" where
  "minmax_scan [] (mn, mx) = (mn, mx)"
| "minmax_scan (g # gs) (mn, mx) =
     minmax_scan gs (if g < mn then g else mn, if g > mx then g else mx)"

definition normalize01 :: "real list \<Rightarrow> fault + real list" where
  "normalize01 grid =
     (case grid of
        [] \<Rightarrow> Inl OutOfBounds
      | g0 # rest \<Rightarrow>
          (let (mn, mx) = minmax_scan rest (g0, g0) in
           if mx - mn \<le> 1 / 10 ^ 12 then Inr (map (\<lambda>_. 1 / 2) grid)
           else Inr (map (\<lambda>g. (g - mn) / (mx - mn)) grid)))"

lemma minmax_scan_eq:
  "minmax_scan gs (mn, mx) = (Min (insert mn (set gs)), Max (insert mx (set gs)))"
proof (induction gs arbitrary: mn mx)
  case Nil
  show ?case by simp
next
  case (Cons g gs)
  have a: "Min (insert (if g < mn then g else mn) (set gs)) = Min (insert mn (insert g (set gs)))"
    by (cases "set gs = {}") (auto simp: min_def)
  have b: "Max (insert (if mx < g then g else mx) (set gs)) = Max (insert mx (insert g (set gs)))"
    by (cases "set gs = {}") (auto simp: max_def)
  show ?case using Cons.IH a b by simp
qed

text \<open>
  Claim C10. For every non-empty grid whose maximum and minimum differ by at most
  \<open>1e-12\<close>, in particular every constant grid, \<^verbatim>\<open>normalize01\<close> sets every cell to
  \<open>0.5\<close>; the original values are not kept.
\<close>

theorem normalize01_flat:
  assumes "grid \<noteq> []" and "Max (set grid) - Min (set grid) \<le> 1 / 10 ^ 12"
  shows "normalize01 grid = Inr (replicate (length grid) (1 / 2))"
proof -
  from assms(1) obtain g0 rest where g: "grid = g0 # rest" by (cases grid) auto
  have "minmax_scan rest (g0, g0) = (Min (set grid), Max (set grid))"
    by (simp add: minmax_scan_eq g)
  then show ?thesis using assms(2) by (simp add: normalize01_def g map_replicate_const)
qed

theorem normalize01_flat_witness:
  "[3, 3, 3 :: real] \<noteq> [] \<and> Max (set [3, 3, 3 :: real]) - Min (set [3, 3, 3]) \<le> 1 / 10 ^ 12
   \<and> normalize01 [3, 3, 3] = Inr [1 / 2, 1 / 2, 1 / 2]"
  using normalize01_flat [of "[3, 3, 3]"] by simp

section \<open>Bilinear resampling\<close>

text \<open>
  \<^verbatim>\<open>resample_bilinear\<close> of \<^verbatim>\<open>geo.c\<close> and of \<^verbatim>\<open>plasma.c\<close>. Both fill a fresh
  \<open>W \<times> H\<close> buffer row by row; the result list is the buffer in row-major order, cell
  \<open>(x, y)\<close> at index \<open>y * W + x\<close>. The source coordinate of an output index and the
  upper neighbour index are the same expressions in both files and are named once.
  \<^verbatim>\<open>geo.c\<close> divides by \<open>W - 1\<close> and \<open>H - 1\<close> as they are; \<^verbatim>\<open>plasma.c\<close> replaces a
  denominator by 1 when the dimension is not above 1 and reads the source through the
  clamping accessor \<^verbatim>\<open>get_src\<close>.
\<close>

definition bilerp :: "real \<Rightarrow> real \<Rightarrow> real \<Rightarrow> real \<Rightarrow> real \<Rightarrow> real \<Rightarrow> real" where
  "bilerp a b c d fx fy =
     (let v0 = a * (1 - fx) + b * fx; v1 = c * (1 - fx) + d * fx
      in v0 * (1 - fy) + v1 * fy)"

definition src_coord :: "int \<Rightarrow> int \<Rightarrow> real \<Rightarrow> real" where
  "src_coord i P denom = real_of_int i * real_of_int (P - 1) / denom"

definition upper_idx :: "int \<Rightarrow> int \<Rightarrow> int" where
  "upper_idx i0 P = (if i0 + 1 \<ge> P then P - 1 else i0 + 1)"

definition geo_resample_cell :: "real list \<Rightarrow> int \<Rightarrow> int \<Rightarrow> int \<Rightarrow> int \<Rightarrow> real \<Rightarrow> int \<Rightarrow> fault + real" where
  "geo_resample_cell src P W y0 y1 fy x =
     (if W - 1 = 0 then Inl DivisionByZero
      else
        let u = src_coord x P (real_of_int (W - 1));
            x0 = \<lfloor>u\<rfloor>;
            x1 = upper_idx x0 P;
            fx = u - real_of_int x0
        in thenf (rd src (y0 * P + x0)) (\<lambda>a.
           thenf (rd src (y0 * P + x1)) (\<lambda>b.
           thenf (rd src (y1 * P + x0)) (\<lambda>c.
           thenf (rd src (y1 * P + x1)) (\<lambda>d.
           Inr (bilerp a b c d fx fy))))))"

definition geo_resample_row :: "real list \<Rightarrow> int \<Rightarrow> int \<Rightarrow> int \<Rightarrow> int \<Rightarrow> fault + real list" where
  "geo_resample_row src P W H y =
     (if H - 1 = 0 then Inl DivisionByZero
      else
        let v = src_coord y P (real_of_int (H - 1));
            y0 = \<lfloor>v\<rfloor>;
            y1 = upper_idx y0 P;
            fy = v - real_of_int y0
        in collect (map (\<lambda>x. geo_resample_cell src P W y0 y1 fy (int x)) [0..<nat W]))"

definition geo_resample_bilinear :: "real list \<Rightarrow> int \<Rightarrow> int \<Rightarrow> int \<Rightarrow> fault + real list" where
  "geo_resample_bilinear src P W H =
     thenf (collect (map (\<lambda>y. geo_resample_row src P W H (int y)) [0..<nat H]))
       (\<lambda>rows. Inr (concat rows))"

definition get_src :: "real list \<Rightarrow> int \<Rightarrow> int \<Rightarrow> int \<Rightarrow> fault + real" where
  "get_src src n x y =
     (let x' = (if x < 0 then 0 else if x \<ge> n then n - 1 else x);
          y' = (if y < 0 then 0 else if y \<ge> n then n - 1 else y)
      in rd src (y' * n + x'))"

text \<open>
  The resampler as the specification words it: \<open>u = x * (P - 1) / (W - 1)\<close>,
  \<open>v = y * (P - 1) / (H - 1)\<close>, a denominator being taken as 1 when \<open>W = 1\<close> or \<open>H = 1\<close>;
  the four surrounding source cells, the upper ones clamped to \<open>P - 1\<close>; bilinear
  interpolation. It is compared with the two functions of the source below.
\<close>

definition resample_spec_at :: "real list \<Rightarrow> int \<Rightarrow> int \<Rightarrow> int \<Rightarrow> int \<Rightarrow> int \<Rightarrow> real" where
  "resample_spec_at src P W H x y =
     (let u = real_of_int x * real_of_int (P - 1) / (if W = 1 then 1 else real_of_int (W - 1));
          v = real_of_int y * real_of_int (P - 1) / (if H = 1 then 1 else real_of_int (H - 1));
          x0 = \<lfloor>u\<rfloor>; x1 = min (x0 + 1) (P - 1);
          y0 = \<lfloor>v\<rfloor>; y1 = min (y0 + 1) (P - 1);
          fx = u - real_of_int x0; fy = v - real_of_int y0
      in (src ! nat (y0 * P + x0) * (1 - fx) + src ! nat (y0 * P + x1) * fx) * (1 - fy)
         + (src ! nat (y1 * P + x0) * (1 - fx) + src ! nat (y1 * P + x1) * fx) * fy)"

definition plasma_resample_cell :: "real list \<Rightarrow> int \<Rightarrow> real \<Rightarrow> int \<Rightarrow> int \<Rightarrow> real \<Rightarrow> int \<Rightarrow> fault + real" where
  "plasma_resample_cell src n denomX v0 v1 fy x =
     (let u = src_coord x n denomX;
          u0 = \<lfloor>u\<rfloor>;
          u1 = upper_idx u0 n;
          fx = u - real_of_int u0
      in thenf (get_src src n u0 v0) (\<lambda>p00.
         thenf (get_src src n u1 v0) (\<lambda>p10.
         thenf (get_src src n u0 v1) (\<lambda>p01.
         thenf (get_src src n u1 v1) (\<lambda>p11.
         Inr (bilerp p00 p10 p01 p11 fx fy))))))"

definition plasma_resample_row :: "real list \<Rightarrow> int \<Rightarrow> int \<Rightarrow> real \<Rightarrow> real \<Rightarrow> int \<Rightarrow> fault + real list" where
  "plasma_resample_row src n W denomX denomY y =
     (let v = src_coord y n denomY;
          v0 = \<lfloor>v\<rfloor>;
          v1 = upper_idx v0 n;
          fy = v - real_of_int v0
      in collect (map (\<lambda>x. plasma_resample_cell src n denomX v0 v1 fy (int x)) [0..<nat W]))"

definition plasma_resample_bilinear :: "real list \<Rightarrow> int \<Rightarrow> int \<Rightarrow> int \<Rightarrow> fault + real list" where
  "plasma_resample_bilinear src n W H =
     (let denomX = (if W > 1 then real_of_int (W - 1) else 1);
          denomY = (if H > 1 then real_of_int (H - 1) else 1)
      in thenf (collect (map (\<lambda>y. plasma_resample_row src n W denomX denomY (int y)) [0..<nat H]))
           (\<lambda>rows. Inr (concat rows)))"

lemma length_concat_rows:
  "length (concat (map (\<lambda>y. map (f y) [0..<W]) [0..<H])) = H * W"
  by (induction H) auto

lemma nth_concat_rows:
  "x < W \<Longrightarrow> y < H \<Longrightarrow> concat (map (\<lambda>y. map (f y) [0..<W]) [0..<H]) ! (y * W + x) = f y x"
proof (induction H)
  case 0
  then show ?case by simp
next
  case (Suc H)
  show ?case
  proof (cases "y < H")
    case True
    have "y * W + x < H * W"
    proof -
      have "y * W + x < y * W + W" using Suc.prems(1) by simp
      also have "\<dots> = Suc y * W" by simp
      also have "\<dots> \<le> H * W" using True by (intro mult_le_mono1) simp
      finally show ?thesis .
    qed
    then show ?thesis using Suc.IH [OF Suc.prems(1) True]
      by (simp add: nth_append length_concat_rows)
  next
    case False
    then have "y = H" using Suc.prems(2) by simp
    then show ?thesis using Suc.prems(1) by (simp add: nth_append length_concat_rows)
  qed
qed

lemma concat_rows_id:
  assumes "length src = H * W"
  shows "concat (map (\<lambda>y. map (\<lambda>x. src ! (y * W + x)) [0..<W]) [0..<H]) = src"
proof (rule nth_equalityI)
  show "length (concat (map (\<lambda>y. map (\<lambda>x. src ! (y * W + x)) [0..<W]) [0..<H])) = length src"
    using assms by (simp add: length_concat_rows)
next
  fix i assume "i < length (concat (map (\<lambda>y. map (\<lambda>x. src ! (y * W + x)) [0..<W]) [0..<H]))"
  then have i: "i < H * W" by (simp add: length_concat_rows)
  then have W: "0 < W" by (cases W) auto
  have x: "i mod W < W" using W by simp
  have y: "i div W < H" using i W by (simp add: less_mult_imp_div_less)
  have "concat (map (\<lambda>y. map (\<lambda>x. src ! (y * W + x)) [0..<W]) [0..<H]) ! (i div W * W + i mod W)
        = src ! (i div W * W + i mod W)"
    by (rule nth_concat_rows [OF x y])
  then show "concat (map (\<lambda>y. map (\<lambda>x. src ! (y * W + x)) [0..<W]) [0..<H]) ! i = src ! i"
    by simp
qed

lemma cell_index_range:
  fixes a b P :: int
  assumes "0 \<le> a" "a < P" "0 \<le> b" "b < P"
  shows "0 \<le> a * P + b" and "a * P + b < P * P"
proof -
  show "0 \<le> a * P + b" using assms by simp
  have "a * P + b < a * P + P" using assms by simp
  also have "\<dots> = (a + 1) * P" by (simp add: algebra_simps)
  also have "\<dots> \<le> P * P" using assms by (intro mult_right_mono) auto
  finally show "a * P + b < P * P" .
qed

lemma src_coord_floor_range:
  assumes "0 \<le> i" "i \<le> d" "1 \<le> d" "1 \<le> P"
  shows "0 \<le> \<lfloor>src_coord i P (real_of_int d)\<rfloor>" and "\<lfloor>src_coord i P (real_of_int d)\<rfloor> < P"
proof -
  have nn: "0 \<le> src_coord i P (real_of_int d)"
    using assms by (simp add: src_coord_def)
  then show "0 \<le> \<lfloor>src_coord i P (real_of_int d)\<rfloor>" by simp
  have "real_of_int i * real_of_int (P - 1) \<le> real_of_int d * real_of_int (P - 1)"
    using assms by (intro mult_right_mono) auto
  then have "src_coord i P (real_of_int d) \<le> real_of_int (P - 1)"
    using assms by (simp add: src_coord_def divide_le_eq mult.commute)
  then show "\<lfloor>src_coord i P (real_of_int d)\<rfloor> < P"
    by (simp add: floor_less_iff)
qed

lemma upper_idx_range: "0 \<le> i0 \<Longrightarrow> 1 \<le> P \<Longrightarrow> 0 \<le> upper_idx i0 P \<and> upper_idx i0 P < P"
  by (simp add: upper_idx_def)

lemma frac_range: "0 \<le> u - real_of_int \<lfloor>u\<rfloor> \<and> u - real_of_int \<lfloor>u\<rfloor> < 1"
  by linarith

lemma src_coord_id: "2 \<le> P \<Longrightarrow> src_coord i P (real_of_int (P - 1)) = real_of_int i"
  by (simp add: src_coord_def)

lemma geo_resample_cell_eq:
  assumes "2 \<le> W" "1 \<le> P" "length src = nat (P * P)" "0 \<le> x" "x < W"
    "0 \<le> y0" "y0 < P" "0 \<le> y1" "y1 < P"
  defines "u \<equiv> src_coord x P (real_of_int (W - 1))"
  shows "geo_resample_cell src P W y0 y1 fy x =
           Inr (bilerp (src ! nat (y0 * P + \<lfloor>u\<rfloor>)) (src ! nat (y0 * P + upper_idx \<lfloor>u\<rfloor> P))
                       (src ! nat (y1 * P + \<lfloor>u\<rfloor>)) (src ! nat (y1 * P + upper_idx \<lfloor>u\<rfloor> P))
                       (u - real_of_int \<lfloor>u\<rfloor>) fy)"
proof -
  have h: "x \<le> W - 1" "1 \<le> W - 1" using assms(1,5) by auto
  have x0: "0 \<le> \<lfloor>u\<rfloor>" "\<lfloor>u\<rfloor> < P"
    unfolding u_def by (rule src_coord_floor_range [OF assms(4) h assms(2)])+
  have x1: "0 \<le> upper_idx \<lfloor>u\<rfloor> P" "upper_idx \<lfloor>u\<rfloor> P < P"
    using upper_idx_range [OF x0(1) assms(2)] by auto
  have len: "int (length src) = P * P" using assms(2,3) by simp
  have r: "\<And>a b. 0 \<le> a \<Longrightarrow> a < P \<Longrightarrow> 0 \<le> b \<Longrightarrow> b < P \<Longrightarrow> rd src (a * P + b) = Inr (src ! nat (a * P + b))"
    using cell_index_range len by (intro rd_in_range) auto
  have W: "W - 1 \<noteq> 0" using assms(1) by simp
  note rs = r [OF assms(6,7) x0] r [OF assms(6,7) x1] r [OF assms(8,9) x0] r [OF assms(8,9) x1]
  show ?thesis
    unfolding geo_resample_cell_def Let_def
    using W by (simp add: rs [unfolded u_def] u_def del: of_int_diff)
qed

lemma upper_idx_min: "upper_idx i0 P = min (i0 + 1) (P - 1)"
  by (simp add: upper_idx_def min_def)

lemma geo_resample_row_eq:
  assumes "2 \<le> W" "2 \<le> H" "1 \<le> P" "length src = nat (P * P)" "0 \<le> y" "y < H"
  shows "geo_resample_row src P W H y =
           Inr (map (\<lambda>x. resample_spec_at src P W H (int x) y) [0..<nat W])"
proof -
  define v where "v = src_coord y P (real_of_int (H - 1))"
  have h: "y \<le> H - 1" "1 \<le> H - 1" using assms(2,6) by auto
  have y0: "0 \<le> \<lfloor>v\<rfloor>" "\<lfloor>v\<rfloor> < P"
    unfolding v_def by (rule src_coord_floor_range [OF assms(5) h assms(3)])+
  have y1: "0 \<le> upper_idx \<lfloor>v\<rfloor> P" "upper_idx \<lfloor>v\<rfloor> P < P"
    using upper_idx_range [OF y0(1) assms(3)] by auto
  have cell: "geo_resample_cell src P W \<lfloor>v\<rfloor> (upper_idx \<lfloor>v\<rfloor> P) (v - real_of_int \<lfloor>v\<rfloor>) (int x)
              = Inr (resample_spec_at src P W H (int x) y)" if "x \<in> set [0..<nat W]" for x
  proof -
    have x: "0 \<le> int x" "int x < W" using that by auto
    have WH: "W \<noteq> 1" "H \<noteq> 1" using assms(1,2) by auto
    show ?thesis
      unfolding geo_resample_cell_eq [OF assms(1,3,4) x y0 y1]
      using WH by (simp add: resample_spec_at_def bilerp_def Let_def upper_idx_min v_def src_coord_def
          del: of_int_diff)
  qed
  have "geo_resample_row src P W H y =
          collect (map (\<lambda>x. geo_resample_cell src P W \<lfloor>v\<rfloor> (upper_idx \<lfloor>v\<rfloor> P)
                              (v - real_of_int \<lfloor>v\<rfloor>) (int x)) [0..<nat W])"
    using h(2) by (simp add: geo_resample_row_def Let_def v_def del: of_int_diff)
  also have "\<dots> = Inr (map (\<lambda>x. resample_spec_at src P W H (int x) y) [0..<nat W])"
    by (rule collect_map_Inr) (rule cell)
  finally show ?thesis .
qed

lemma geo_resample_bilinear_eq:
  assumes "2 \<le> W" "2 \<le> H" "1 \<le> P" "length src = nat (P * P)"
  shows "geo_resample_bilinear src P W H =
           Inr (concat (map (\<lambda>y. map (\<lambda>x. resample_spec_at src P W H (int x) (int y)) [0..<nat W])
                            [0..<nat H]))"
proof -
  have "collect (map (\<lambda>y. geo_resample_row src P W H (int y)) [0..<nat H]) =
          Inr (map (\<lambda>y. map (\<lambda>x. resample_spec_at src P W H (int x) (int y)) [0..<nat W]) [0..<nat H])"
    by (rule collect_map_Inr) (auto intro!: geo_resample_row_eq [OF assms])
  then show ?thesis by (simp add: geo_resample_bilinear_def)
qed

lemma get_src_in_range:
  assumes "1 \<le> n" "length src = nat (n * n)" "0 \<le> x" "x < n" "0 \<le> y" "y < n"
  shows "get_src src n x y = Inr (src ! nat (y * n + x))"
proof -
  have len: "int (length src) = n * n" using assms(1,2) by simp
  have "rd src (y * n + x) = Inr (src ! nat (y * n + x))"
    using cell_index_range [OF assms(5,6,3,4)] len by (intro rd_in_range) auto
  then show ?thesis using assms(3-6) by (simp add: get_src_def)
qed

lemma plasma_resample_row_eq:
  assumes "1 \<le> W" "1 \<le> H" "1 \<le> n" "length src = nat (n * n)" "0 \<le> y" "y < H"
  shows "plasma_resample_row src n W (if W > 1 then real_of_int (W - 1) else 1)
              (if H > 1 then real_of_int (H - 1) else 1) y =
           Inr (map (\<lambda>x. resample_spec_at src n W H (int x) y) [0..<nat W])"
proof -
  define dX where "dX = (if W > 1 then W - 1 else 1)"
  define dY where "dY = (if H > 1 then H - 1 else 1)"
  have dXr: "(if W > 1 then real_of_int (W - 1) else 1) = real_of_int dX"
    and dYr: "(if H > 1 then real_of_int (H - 1) else 1) = real_of_int dY"
    by (auto simp: dX_def dY_def)
  have dXs: "(if W = 1 then 1 else real_of_int (W - 1)) = real_of_int dX"
    and dYs: "(if H = 1 then 1 else real_of_int (H - 1)) = real_of_int dY"
    using assms(1,2) by (auto simp: dX_def dY_def)
  define v where "v = src_coord y n (real_of_int dY)"
  have h: "y \<le> dY" "1 \<le> dY" using assms(2,6) by (auto simp: dY_def)
  have y0: "0 \<le> \<lfloor>v\<rfloor>" "\<lfloor>v\<rfloor> < n"
    unfolding v_def by (rule src_coord_floor_range [OF assms(5) h assms(3)])+
  have y1: "0 \<le> upper_idx \<lfloor>v\<rfloor> n" "upper_idx \<lfloor>v\<rfloor> n < n"
    using upper_idx_range [OF y0(1) assms(3)] by auto
  have cell: "plasma_resample_cell src n (real_of_int dX) \<lfloor>v\<rfloor> (upper_idx \<lfloor>v\<rfloor> n)
                 (v - real_of_int \<lfloor>v\<rfloor>) (int x)
              = Inr (resample_spec_at src n W H (int x) y)" if "x \<in> set [0..<nat W]" for x
  proof -
    define u where "u = src_coord (int x) n (real_of_int dX)"
    have x: "0 \<le> int x" "int x \<le> dX" "1 \<le> dX" using that assms(1) by (auto simp: dX_def)
    have x0: "0 \<le> \<lfloor>u\<rfloor>" "\<lfloor>u\<rfloor> < n"
      unfolding u_def by (rule src_coord_floor_range [OF x assms(3)])+
    have x1: "0 \<le> upper_idx \<lfloor>u\<rfloor> n" "upper_idx \<lfloor>u\<rfloor> n < n"
      using upper_idx_range [OF x0(1) assms(3)] by auto
    note g = get_src_in_range [OF assms(3,4)]
    note gs = g [OF x0 y0] g [OF x1 y0] g [OF x0 y1] g [OF x1 y1]
    have "plasma_resample_cell src n (real_of_int dX) \<lfloor>v\<rfloor> (upper_idx \<lfloor>v\<rfloor> n)
                 (v - real_of_int \<lfloor>v\<rfloor>) (int x)
          = Inr (bilerp (src ! nat (\<lfloor>v\<rfloor> * n + \<lfloor>u\<rfloor>)) (src ! nat (\<lfloor>v\<rfloor> * n + upper_idx \<lfloor>u\<rfloor> n))
                   (src ! nat (upper_idx \<lfloor>v\<rfloor> n * n + \<lfloor>u\<rfloor>))
                   (src ! nat (upper_idx \<lfloor>v\<rfloor> n * n + upper_idx \<lfloor>u\<rfloor> n))
                   (u - real_of_int \<lfloor>u\<rfloor>) (v - real_of_int \<lfloor>v\<rfloor>))"
      unfolding plasma_resample_cell_def Let_def u_def [symmetric] by (simp add: gs)
    also have "\<dots> = Inr (resample_spec_at src n W H (int x) y)"
      unfolding resample_spec_at_def Let_def dXs dYs
      by (simp add: bilerp_def Let_def upper_idx_min u_def v_def src_coord_def)
    finally show ?thesis .
  qed
  have "plasma_resample_row src n W (real_of_int dX) (real_of_int dY) y =
          collect (map (\<lambda>x. plasma_resample_cell src n (real_of_int dX) \<lfloor>v\<rfloor> (upper_idx \<lfloor>v\<rfloor> n)
                              (v - real_of_int \<lfloor>v\<rfloor>) (int x)) [0..<nat W])"
    by (simp add: plasma_resample_row_def Let_def v_def)
  also have "\<dots> = Inr (map (\<lambda>x. resample_spec_at src n W H (int x) y) [0..<nat W])"
    by (rule collect_map_Inr) (rule cell)
  finally show ?thesis unfolding dXr dYr .
qed

lemma plasma_resample_bilinear_eq:
  assumes "1 \<le> W" "1 \<le> H" "1 \<le> n" "length src = nat (n * n)"
  shows "plasma_resample_bilinear src n W H =
           Inr (concat (map (\<lambda>y. map (\<lambda>x. resample_spec_at src n W H (int x) (int y)) [0..<nat W])
                            [0..<nat H]))"
proof -
  have "collect (map (\<lambda>y. plasma_resample_row src n W (if W > 1 then real_of_int (W - 1) else 1)
              (if H > 1 then real_of_int (H - 1) else 1) (int y)) [0..<nat H]) =
          Inr (map (\<lambda>y. map (\<lambda>x. resample_spec_at src n W H (int x) (int y)) [0..<nat W]) [0..<nat H])"
  proof (rule collect_map_Inr)
    fix y assume "y \<in> set [0..<nat H]"
    then have "0 \<le> int y" "int y < H" by auto
    then show "plasma_resample_row src n W (if W > 1 then real_of_int (W - 1) else 1)
              (if H > 1 then real_of_int (H - 1) else 1) (int y) =
           Inr (map (\<lambda>x. resample_spec_at src n W H (int x) (int y)) [0..<nat W])"
      by (rule plasma_resample_row_eq [OF assms])
  qed
  then show ?thesis by (simp add: plasma_resample_bilinear_def Let_def del: of_int_diff)
qed

lemma resample_spec_at_id:
  assumes "2 \<le> P"
  shows "resample_spec_at src P P P x y = src ! nat (y * P + x)"
proof -
  have P: "P \<noteq> 1" "real_of_int P - 1 \<noteq> 0" using assms by auto
  have "real_of_int x * (real_of_int P - 1) / (real_of_int P - 1) = real_of_int x"
    "real_of_int y * (real_of_int P - 1) / (real_of_int P - 1) = real_of_int y"
    using P(2) by simp_all
  then show ?thesis using P(1) by (simp add: resample_spec_at_def Let_def)
qed

lemma concat_rows_int_id:
  assumes "1 \<le> P" "length src = nat (P * P)"
  shows "concat (map (\<lambda>y. map (\<lambda>x. src ! nat (int y * P + int x)) [0..<nat P]) [0..<nat P]) = src"
proof -
  have a: "nat (int y * P + int x) = y * nat P + x" for x y
    using assms(1) by (simp add: nat_add_distrib nat_mult_distrib)
  have b: "length src = nat P * nat P" using assms by (simp add: nat_mult_distrib)
  show ?thesis unfolding a by (rule concat_rows_id [OF b])
qed

text \<open>
  Claim C5. Resampling a square source grid of side \<open>P\<close> (a synthesis grid, so \<open>P \<ge> 2\<close>)
  to \<open>W = P\<close>, \<open>H = P\<close> reproduces the source grid exactly, in both programs: the output
  at every \<open>(x, y)\<close> is the source value at \<open>(x, y)\<close>.
\<close>

theorem resample_identity:
  assumes "2 \<le> P" and "length src = nat (P * P)"
  shows "geo_resample_bilinear src P P P = Inr src \<and> plasma_resample_bilinear src P P P = Inr src"
proof -
  have P1: "1 \<le> P" using assms(1) by simp
  show ?thesis
    unfolding geo_resample_bilinear_eq [OF assms(1) assms(1) P1 assms(2)]
      plasma_resample_bilinear_eq [OF P1 P1 P1 assms(2)]
      resample_spec_at_id [OF assms(1)]
    by (simp add: concat_rows_int_id [OF P1 assms(2)])
qed

theorem resample_identity_witness:
  "(2::int) \<le> 2 \<and> length [1, 2, 3, 4 :: real] = nat (2 * 2)
   \<and> geo_resample_bilinear [1, 2, 3, 4] 2 2 2 = Inr [1, 2, 3, 4]
   \<and> plasma_resample_bilinear [1, 2, 3, 4] 2 2 2 = Inr [1, 2, 3, 4]"
  using resample_identity [of 2 "[1, 2, 3, 4]"] by simp

lemma nth_concat_rows_int:
  assumes "0 \<le> x" "x < W" "0 \<le> y" "y < H"
  shows "concat (map (\<lambda>y. map (\<lambda>x. f (int x) (int y)) [0..<nat W]) [0..<nat H]) ! nat (y * W + x)
         = f x y"
proof -
  have a: "nat (y * W + x) = nat y * nat W + nat x"
    using assms by (simp add: nat_add_distrib nat_mult_distrib)
  have "concat (map (\<lambda>y. map (\<lambda>x. f (int x) (int y)) [0..<nat W]) [0..<nat H]) ! (nat y * nat W + nat x)
        = f (int (nat x)) (int (nat y))"
    using assms by (intro nth_concat_rows) auto
  then show ?thesis using assms a by simp
qed




section \<open>Triangle fill of the isometric rasteriser\<close>

text \<open>
  \<^verbatim>\<open>iso.c\<close> (the unnamed part 001): \<^verbatim>\<open>clamp8\<close>, \<^verbatim>\<open>put_px\<close> and \<^verbatim>\<open>fill_tri\<close>. The
  framebuffer is the list of its bytes, three per pixel, row-major. The coordinates and
  the edge functions are mathematical integers: the model is the code as long as the
  \<^verbatim>\<open>int\<close> and \<^verbatim>\<open>long\<close> arithmetic of the source does not overflow.
\<close>

type_synonym byte = "8 word"

definition clamp8 :: "int \<Rightarrow> int" where
  "clamp8 v = (if v < 0 then 0 else if v > 255 then 255 else v)"

definition px_off :: "int \<Rightarrow> int \<Rightarrow> int \<Rightarrow> int" where
  "px_off W x y = (y * W + x) * 3"

definition put_px :: "byte list \<Rightarrow> int \<Rightarrow> int \<Rightarrow> int \<Rightarrow> int \<Rightarrow> int \<Rightarrow> int \<Rightarrow> int \<Rightarrow> fault + byte list" where
  "put_px fb W H x y r g b =
     (if x < 0 \<or> y < 0 \<or> x \<ge> W \<or> y \<ge> H then Inr fb
      else
        let off = px_off W x y
        in thenf (wr fb (off + 0) (word_of_int (clamp8 r))) (\<lambda>fb.
           thenf (wr fb (off + 1) (word_of_int (clamp8 g))) (\<lambda>fb.
           wr fb (off + 2) (word_of_int (clamp8 b)))))"

definition fill_tri ::
  "byte list \<Rightarrow> int \<Rightarrow> int \<Rightarrow> int \<Rightarrow> int \<Rightarrow> int \<Rightarrow> int \<Rightarrow> int \<Rightarrow> int \<Rightarrow> int \<Rightarrow> int \<Rightarrow> int
   \<Rightarrow> fault + byte list" where
  "fill_tri fb W H x0 y0 x1 y1 x2 y2 r g b =
     (let minx = x0; minx = (if x1 < minx then x1 else minx); minx = (if x2 < minx then x2 else minx);
          maxx = x0; maxx = (if x1 > maxx then x1 else maxx); maxx = (if x2 > maxx then x2 else maxx);
          miny = y0; miny = (if y1 < miny then y1 else miny); miny = (if y2 < miny then y2 else miny);
          maxy = y0; maxy = (if y1 > maxy then y1 else maxy); maxy = (if y2 > maxy then y2 else maxy);
          minx = (if minx < 0 then 0 else minx);
          miny = (if miny < 0 then 0 else miny);
          maxx = (if maxx \<ge> W then W - 1 else maxx);
          maxy = (if maxy \<ge> H then H - 1 else maxy);
          A01 = y0 - y1; B01 = x1 - x0;
          A12 = y1 - y2; B12 = x2 - x1;
          A20 = y2 - y0; B20 = x0 - x2
      in for_each [miny..maxy] (\<lambda>y.
           for_each [minx..maxx] (\<lambda>x fb.
             let w0 = (x - x1) * A12 + (y - y1) * B12;
                 w1 = (x - x2) * A20 + (y - y2) * B20;
                 w2 = (x - x0) * A01 + (y - y0) * B01
             in if (w0 \<ge> 0 \<and> w1 \<ge> 0 \<and> w2 \<ge> 0) \<or> (w0 \<le> 0 \<and> w1 \<le> 0 \<and> w2 \<le> 0)
                then put_px fb W H x y r g b
                else Inr fb)) fb)"

definition pixel_at :: "byte list \<Rightarrow> int \<Rightarrow> int \<Rightarrow> int \<Rightarrow> byte \<times> byte \<times> byte" where
  "pixel_at fb W x y =
     (fb ! nat (px_off W x y), fb ! nat (px_off W x y + 1), fb ! nat (px_off W x y + 2))"

text \<open>
  The words of the specification: the three edge functions of the triangle, the
  same-sign test (zeros allowed) and the bounding box of the three vertices.
\<close>

definition edge_fn :: "int \<Rightarrow> int \<Rightarrow> int \<Rightarrow> int \<Rightarrow> int \<Rightarrow> int \<Rightarrow> int" where
  "edge_fn ax ay bx by x y = (x - ax) * (ay - by) + (y - ay) * (bx - ax)"

definition same_sign :: "int \<Rightarrow> int \<Rightarrow> int \<Rightarrow> int \<Rightarrow> int \<Rightarrow> int \<Rightarrow> int \<Rightarrow> int \<Rightarrow> bool" where
  "same_sign x0 y0 x1 y1 x2 y2 x y \<longleftrightarrow>
     (let w0 = edge_fn x1 y1 x2 y2 x y; w1 = edge_fn x2 y2 x0 y0 x y; w2 = edge_fn x0 y0 x1 y1 x y
      in (w0 \<ge> 0 \<and> w1 \<ge> 0 \<and> w2 \<ge> 0) \<or> (w0 \<le> 0 \<and> w1 \<le> 0 \<and> w2 \<le> 0))"

definition in_bbox :: "int \<Rightarrow> int \<Rightarrow> int \<Rightarrow> int \<Rightarrow> int \<Rightarrow> int \<Rightarrow> int \<Rightarrow> int \<Rightarrow> bool" where
  "in_bbox x0 y0 x1 y1 x2 y2 x y \<longleftrightarrow>
     min x0 (min x1 x2) \<le> x \<and> x \<le> max x0 (max x1 x2) \<and>
     min y0 (min y1 y2) \<le> y \<and> y \<le> max y0 (max y1 y2)"


lemma pixel_index_range:
  fixes x y W H :: int
  assumes "0 \<le> x" "x < W" "0 \<le> y" "y < H"
  shows "0 \<le> y * W + x" and "y * W + x < W * H"
proof -
  show "0 \<le> y * W + x" using assms by simp
  have "y * W + x < y * W + W" using assms by simp
  also have "\<dots> = (y + 1) * W" by (simp add: algebra_simps)
  also have "\<dots> \<le> H * W" using assms by (intro mult_right_mono) auto
  finally show "y * W + x < W * H" by (simp add: mult.commute)
qed

lemma pixel_index_inj:
  fixes x y x' y' W :: int
  assumes "0 \<le> x" "x < W" "0 \<le> x'" "x' < W" "y * W + x = y' * W + x'"
  shows "x = x' \<and> y = y'"
proof -
  have a: "(y * W + x) mod W = x" using assms(1,2) by simp
  have b: "(y' * W + x') mod W = x'" using assms(3,4) by simp
  have x: "x = x'" by (metis a b assms(5))
  then have "y * W = y' * W" using assms(5) by simp
  then have "y = y'" using assms(1,2) by simp
  with x show ?thesis by simp
qed

lemma put_px_outside:
  "x < 0 \<or> y < 0 \<or> x \<ge> W \<or> y \<ge> H \<Longrightarrow> put_px fb W H x y r g b = Inr fb"
  by (simp add: put_px_def)

lemma put_px_inside:
  assumes "length fb = nat (W * H * 3)" "0 \<le> x" "x < W" "0 \<le> y" "y < H"
  shows "\<exists>fb'. put_px fb W H x y r g b = Inr fb' \<and> length fb' = length fb \<and>
           (\<forall>x' y'. 0 \<le> x' \<and> x' < W \<and> 0 \<le> y' \<and> y' < H \<longrightarrow>
              pixel_at fb' W x' y' =
                (if x' = x \<and> y' = y
                 then (word_of_int (clamp8 r), word_of_int (clamp8 g), word_of_int (clamp8 b))
                 else pixel_at fb W x' y'))"
proof -
  define off where "off = px_off W x y"
  have r: "0 \<le> y * W + x" "y * W + x < W * H" using pixel_index_range [OF assms(2-5)] by auto
  have WH: "0 \<le> W * H * 3" using r by linarith
  have len: "int (length fb) = W * H * 3" using assms(1) WH by simp
  have o: "0 \<le> off" "off + 2 < int (length fb)" using r len by (auto simp: off_def px_off_def)
  define fb' where "fb' = fb[nat off := word_of_int (clamp8 r), nat (off + 1) := word_of_int (clamp8 g),
      nat (off + 2) := word_of_int (clamp8 b)]"
  have run: "put_px fb W H x y r g b = Inr fb'"
    unfolding put_px_def Let_def off_def [symmetric] fb'_def
    using assms(2-5) o by (simp add: wr_def)
  have l: "length fb' = length fb" by (simp add: fb'_def)
  have px: "pixel_at fb' W x' y' =
                (if x' = x \<and> y' = y
                 then (word_of_int (clamp8 r), word_of_int (clamp8 g), word_of_int (clamp8 b))
                 else pixel_at fb W x' y')"
    if h: "0 \<le> x' \<and> x' < W \<and> 0 \<le> y' \<and> y' < H" for x' y'
  proof (cases "x' = x \<and> y' = y")
    case True
    have n: "nat (off + 1) = nat off + 1" "nat (off + 2) = nat off + 2" using o by auto
    have "nat off + 2 < length fb" using o by linarith
    then show ?thesis using True
      by (simp add: pixel_at_def off_def [symmetric] fb'_def n)
  next
    case False
    define off' where "off' = px_off W x' y'"
    have r': "0 \<le> y' * W + x'" using h by simp
    have "y' * W + x' \<noteq> y * W + x"
      using pixel_index_inj [of x' W x y' y] h assms(2,3) False by blast
    then have ne: "\<And>j k. 0 \<le> j \<Longrightarrow> j < 3 \<Longrightarrow> 0 \<le> k \<Longrightarrow> k < 3 \<Longrightarrow> off' + j \<noteq> off + k"
      unfolding off_def off'_def px_off_def by presburger
    have o': "0 \<le> off'" using r' by (simp add: off'_def px_off_def)
    have nn: "nat (off' + j) \<noteq> nat (off + k)" if "j \<in> {0, 1, 2}" "k \<in> {0, 1, 2}" for j k
      using ne [of j k] that o o' by auto
    have "fb' ! nat (off' + j) = fb ! nat (off' + j)" if "j \<in> {0, 1, 2}" for j
      using nn [OF that, of 0] nn [OF that, of 1] nn [OF that, of 2] by (simp add: fb'_def)
    from this [of 0] this [of 1] this [of 2] show ?thesis using False
      by (auto simp: pixel_at_def off'_def [symmetric])
  qed
  from run l px show ?thesis by blast
qed

lemma for_each_append:
  "for_each (xs @ ys) body s = thenf (for_each xs body s) (for_each ys body)"
  by (induction xs arbitrary: s) (auto simp: thenf_def split: sum.splits)

lemma paint_row:
  assumes "length fb = nat (W * H * 3)"
  shows "\<exists>fb'. for_each xs (\<lambda>x fb. if P x then put_px fb W H x y r g b else Inr fb) fb = Inr fb'
           \<and> length fb' = length fb \<and>
           (\<forall>x' y'. 0 \<le> x' \<and> x' < W \<and> 0 \<le> y' \<and> y' < H \<longrightarrow>
              pixel_at fb' W x' y' =
                (if y' = y \<and> x' \<in> set xs \<and> P x'
                 then (word_of_int (clamp8 r), word_of_int (clamp8 g), word_of_int (clamp8 b))
                 else pixel_at fb W x' y'))"
  using assms
proof (induction xs arbitrary: fb)
  case Nil
  then show ?case by simp
next
  case (Cons x xs)
  let ?c = "(word_of_int (clamp8 r), word_of_int (clamp8 g), word_of_int (clamp8 b)) :: byte \<times> byte \<times> byte"
  have "\<exists>fb1. (if P x then put_px fb W H x y r g b else Inr fb) = Inr fb1 \<and> length fb1 = length fb \<and>
           (\<forall>x' y'. 0 \<le> x' \<and> x' < W \<and> 0 \<le> y' \<and> y' < H \<longrightarrow>
              pixel_at fb1 W x' y' = (if y' = y \<and> x' = x \<and> P x' then ?c else pixel_at fb W x' y'))"
  proof (cases "P x \<and> 0 \<le> x \<and> x < W \<and> 0 \<le> y \<and> y < H")
    case True
    from put_px_inside [OF Cons.prems, of x y r g b] True
    obtain fb1 where "put_px fb W H x y r g b = Inr fb1" "length fb1 = length fb"
      "\<forall>x' y'. 0 \<le> x' \<and> x' < W \<and> 0 \<le> y' \<and> y' < H \<longrightarrow>
              pixel_at fb1 W x' y' = (if x' = x \<and> y' = y then ?c else pixel_at fb W x' y')"
      by blast
    then show ?thesis using True by (intro exI [of _ fb1]) auto
  next
    case False
    then have "(if P x then put_px fb W H x y r g b else Inr fb) = Inr fb"
      by (auto simp: put_px_outside)
    then show ?thesis using False by (intro exI [of _ fb]) auto
  qed
  then obtain fb1 where fb1: "(if P x then put_px fb W H x y r g b else Inr fb) = Inr fb1"
    "length fb1 = length fb"
    "\<forall>x' y'. 0 \<le> x' \<and> x' < W \<and> 0 \<le> y' \<and> y' < H \<longrightarrow>
              pixel_at fb1 W x' y' = (if y' = y \<and> x' = x \<and> P x' then ?c else pixel_at fb W x' y')"
    by blast
  have l1: "length fb1 = nat (W * H * 3)" using fb1(2) Cons.prems by simp
  from Cons.IH [OF l1] obtain fb2 where fb2:
    "for_each xs (\<lambda>x fb. if P x then put_px fb W H x y r g b else Inr fb) fb1 = Inr fb2"
    "length fb2 = length fb1"
    "\<forall>x' y'. 0 \<le> x' \<and> x' < W \<and> 0 \<le> y' \<and> y' < H \<longrightarrow>
              pixel_at fb2 W x' y' = (if y' = y \<and> x' \<in> set xs \<and> P x' then ?c else pixel_at fb1 W x' y')"
    by blast
  have "for_each (x # xs) (\<lambda>x fb. if P x then put_px fb W H x y r g b else Inr fb) fb = Inr fb2"
    using fb1(1) fb2(1) by simp
  moreover have "length fb2 = length fb" using fb1(2) fb2(2) by simp
  moreover have "\<forall>x' y'. 0 \<le> x' \<and> x' < W \<and> 0 \<le> y' \<and> y' < H \<longrightarrow>
              pixel_at fb2 W x' y' = (if y' = y \<and> x' \<in> set (x # xs) \<and> P x' then ?c else pixel_at fb W x' y')"
    using fb1(3) fb2(3) by auto
  ultimately show ?case by blast
qed

lemma paint_rows:
  assumes "length fb = nat (W * H * 3)"
  shows "\<exists>fb'. for_each ys (\<lambda>y. for_each xs
                    (\<lambda>x fb. if P x y then put_px fb W H x y r g b else Inr fb)) fb = Inr fb'
           \<and> length fb' = length fb \<and>
           (\<forall>x' y'. 0 \<le> x' \<and> x' < W \<and> 0 \<le> y' \<and> y' < H \<longrightarrow>
              pixel_at fb' W x' y' =
                (if y' \<in> set ys \<and> x' \<in> set xs \<and> P x' y'
                 then (word_of_int (clamp8 r), word_of_int (clamp8 g), word_of_int (clamp8 b))
                 else pixel_at fb W x' y'))"
  using assms
proof (induction ys arbitrary: fb)
  case Nil
  then show ?case by simp
next
  case (Cons y ys)
  let ?c = "(word_of_int (clamp8 r), word_of_int (clamp8 g), word_of_int (clamp8 b)) :: byte \<times> byte \<times> byte"
  from paint_row [OF Cons.prems, of xs "\<lambda>x. P x y" y r g b]
  obtain fb1 where fb1:
    "for_each xs (\<lambda>x fb. if P x y then put_px fb W H x y r g b else Inr fb) fb = Inr fb1"
    "length fb1 = length fb"
    "\<forall>x' y'. 0 \<le> x' \<and> x' < W \<and> 0 \<le> y' \<and> y' < H \<longrightarrow>
              pixel_at fb1 W x' y' = (if y' = y \<and> x' \<in> set xs \<and> P x' y then ?c else pixel_at fb W x' y')"
    by blast
  have l1: "length fb1 = nat (W * H * 3)" using fb1(2) Cons.prems by simp
  from Cons.IH [OF l1] obtain fb2 where fb2:
    "for_each ys (\<lambda>y. for_each xs
                    (\<lambda>x fb. if P x y then put_px fb W H x y r g b else Inr fb)) fb1 = Inr fb2"
    "length fb2 = length fb1"
    "\<forall>x' y'. 0 \<le> x' \<and> x' < W \<and> 0 \<le> y' \<and> y' < H \<longrightarrow>
              pixel_at fb2 W x' y' =
                (if y' \<in> set ys \<and> x' \<in> set xs \<and> P x' y' then ?c else pixel_at fb1 W x' y')"
    by blast
  have "for_each (y # ys) (\<lambda>y. for_each xs
                    (\<lambda>x fb. if P x y then put_px fb W H x y r g b else Inr fb)) fb = Inr fb2"
    using fb1(1) fb2(1) by simp
  moreover have "length fb2 = length fb" using fb1(2) fb2(2) by simp
  moreover have "\<forall>x' y'. 0 \<le> x' \<and> x' < W \<and> 0 \<le> y' \<and> y' < H \<longrightarrow>
              pixel_at fb2 W x' y' =
                (if y' \<in> set (y # ys) \<and> x' \<in> set xs \<and> P x' y' then ?c else pixel_at fb W x' y')"
    using fb1(3) fb2(3) by auto
  ultimately show ?case by blast
qed



section \<open>Water classification\<close>

text \<open>
  \<^verbatim>\<open>geo.c\<close>, \<^verbatim>\<open>flood_from_edges_or_seed\<close> and \<^verbatim>\<open>mark_all_below\<close>. The state of the flood
  is the mask, the two queue arrays and the read and write positions \<^verbatim>\<open>qh\<close>, \<^verbatim>\<open>qt\<close>.
  The queue arrays hold \<open>W * H\<close> entries; a write at \<^verbatim>\<open>queue_x[qt]\<close> with \<open>qt\<close> at the
  capacity is a write outside the array. The two \<^verbatim>\<open>malloc\<close> results are the parameters
  \<open>qx_ok\<close> and \<open>qy_ok\<close>; the caller's mask buffer is \<open>mask0\<close>.

  The statement \<^verbatim>\<open>{ mask[i] = 1; queue_x[qt] = x; queue_y[qt] = y; qt++; }\<close>, which the
  source repeats at every place that floods a cell, is \<open>mark_enqueue\<close>.
\<close>

record flood_state =
  mask_w :: "byte list"
  queue_x :: "int list"
  queue_y :: "int list"
  qh :: nat
  qt :: nat

definition mark_enqueue :: "int \<Rightarrow> int \<Rightarrow> int \<Rightarrow> flood_state \<Rightarrow> fault + flood_state" where
  "mark_enqueue W x y s =
     thenf (wr (mask_w s) (y * W + x) 1) (\<lambda>m.
     thenf (wr (queue_x s) (int (qt s)) x) (\<lambda>qx.
     thenf (wr (queue_y s) (int (qt s)) y) (\<lambda>qy.
     Inr (s\<lparr>mask_w := m, queue_x := qx, queue_y := qy, qt := qt s + 1\<rparr>))))"

definition seed_if_low :: "real list \<Rightarrow> int \<Rightarrow> real \<Rightarrow> int \<Rightarrow> int \<Rightarrow> flood_state \<Rightarrow> fault + flood_state" where
  "seed_if_low h W level x y s =
     thenf (rd h (y * W + x)) (\<lambda>v. if v \<le> level then mark_enqueue W x y s else Inr s)"

definition seed_edges :: "real list \<Rightarrow> int \<Rightarrow> int \<Rightarrow> real \<Rightarrow> flood_state \<Rightarrow> fault + flood_state" where
  "seed_edges h W H level s =
     thenf (for_each [0..<nat W] (\<lambda>x s.
              thenf (seed_if_low h W level (int x) 0 s) (seed_if_low h W level (int x) (H - 1))) s)
       (for_each [0..<nat H] (\<lambda>y s.
              thenf (seed_if_low h W level 0 (int y) s) (seed_if_low h W level (W - 1) (int y))))"

definition seed_point :: "real list \<Rightarrow> int \<Rightarrow> int \<Rightarrow> real \<Rightarrow> int \<Rightarrow> int \<Rightarrow> flood_state \<Rightarrow> fault + flood_state" where
  "seed_point h W H level sx sy s =
     (let sx = (if sx < 0 then 0 else sx); sx = (if sx \<ge> W then W - 1 else sx);
          sy = (if sy < 0 then 0 else sy); sy = (if sy \<ge> H then H - 1 else sy)
      in thenf (rd h (sy * W + sx)) (\<lambda>v.
           if v \<le> level
           then thenf (rd (mask_w s) (sy * W + sx)) (\<lambda>m.
                  if m = 0 then mark_enqueue W sx sy s else Inr s)
           else Inr s))"

definition visit :: "real list \<Rightarrow> int \<Rightarrow> int \<Rightarrow> real \<Rightarrow> int \<Rightarrow> int \<Rightarrow> int \<times> int \<Rightarrow> flood_state \<Rightarrow> fault + flood_state" where
  "visit h W H level cx cy d s =
     (let nx = cx + fst d; ny = cy + snd d
      in if nx < 0 \<or> ny < 0 \<or> nx \<ge> W \<or> ny \<ge> H then Inr s
         else thenf (rd (mask_w s) (ny * W + nx)) (\<lambda>m.
                if m \<noteq> 0 then Inr s
                else thenf (rd h (ny * W + nx)) (\<lambda>v.
                       if v \<le> level then mark_enqueue W nx ny s else Inr s)))"

definition bfs_step :: "real list \<Rightarrow> int \<Rightarrow> int \<Rightarrow> real \<Rightarrow> flood_state \<Rightarrow> fault + flood_state" where
  "bfs_step h W H level s =
     thenf (rd (queue_x s) (int (qh s))) (\<lambda>cx.
     thenf (rd (queue_y s) (int (qh s))) (\<lambda>cy.
     for_each [(1, 0), (- 1, 0), (0, 1), (0, - 1)] (visit h W H level cx cy) (s\<lparr>qh := qh s + 1\<rparr>)))"

lemma mark_enqueue_grows: "mark_enqueue W x y s = Inr s' \<Longrightarrow> qh s' = qh s \<and> length (queue_x s') = length (queue_x s) \<and> qt s' = qt s + 1 \<and> qt s' \<le> length (queue_x s)"
  by (auto simp: mark_enqueue_def thenf_eq_Inr wr_def split: if_splits)

text \<open>
  Termination of the search: every step advances \<^verbatim>\<open>qh\<close>, and \<^verbatim>\<open>qt\<close> grows only while it
  is below the capacity.
\<close>

definition q_rel :: "nat \<Rightarrow> flood_state \<Rightarrow> flood_state \<Rightarrow> bool" where
  "q_rel k s s' \<longleftrightarrow>
     qh s' = qh s \<and> length (queue_x s') = length (queue_x s) \<and> qt s \<le> qt s' \<and> qt s' \<le> qt s + k \<and>
     (qt s' = qt s \<or> qt s' \<le> length (queue_x s))"

lemma visit_q_rel: "visit h W H level cx cy d s = Inr s' \<Longrightarrow> q_rel 1 s s'"
  using mark_enqueue_grows [of W "cx + fst d" "cy + snd d" s s']
  by (auto simp: visit_def Let_def thenf_eq_Inr q_rel_def split: if_splits)

lemma q_rel_trans: "q_rel j s s' \<Longrightarrow> q_rel k s' s'' \<Longrightarrow> q_rel (j + k) s s''"
  by (auto simp: q_rel_def)

lemma visits_q_rel:
  "for_each ds (visit h W H level cx cy) s = Inr s' \<Longrightarrow> q_rel (length ds) s s'"
proof (induction ds arbitrary: s)
  case Nil
  then show ?case by (simp add: q_rel_def)
next
  case (Cons d ds)
  from Cons.prems obtain s1 where s1: "visit h W H level cx cy d s = Inr s1"
    "for_each ds (visit h W H level cx cy) s1 = Inr s'"
    by (auto simp: thenf_eq_Inr)
  from q_rel_trans [OF visit_q_rel [OF s1(1)] Cons.IH [OF s1(2)]] show ?case by simp
qed

lemma bfs_step_measure:
  assumes "bfs_step h W H level s = Inr s'" "qh s < qt s"
  shows "2 * (length (queue_x s') - qt s') + (qt s' - qh s') < 2 * (length (queue_x s) - qt s) + (qt s - qh s)"
proof -
  from assms(1) obtain cx cy where
    "for_each [(1, 0), (- 1, 0), (0, 1), (0, - 1)] (visit h W H level cx cy) (s\<lparr>qh := qh s + 1\<rparr>) = Inr s'"
    unfolding bfs_step_def thenf_eq_Inr by blast
  from visits_q_rel [OF this] have "q_rel (Suc (Suc (Suc (Suc 0)))) (s\<lparr>qh := qh s + 1\<rparr>) s'"
    by simp
  then show ?thesis using assms(2) by (auto simp: q_rel_def)
qed

function bfs_loop :: "real list \<Rightarrow> int \<Rightarrow> int \<Rightarrow> real \<Rightarrow> flood_state \<Rightarrow> fault + flood_state" where
  "bfs_loop h W H level s =
     (if qh s < qt s
      then (case bfs_step h W H level s of Inl e \<Rightarrow> Inl e | Inr s' \<Rightarrow> bfs_loop h W H level s')
      else Inr s)"
  by pat_completeness auto
termination
  by (relation "measure (\<lambda>(h, W, H, level, s). 2 * (length (queue_x s) - qt s) + (qt s - qh s))")
    (auto dest: bfs_step_measure)

declare bfs_loop.simps [simp del]

definition flood_from_edges_or_seed ::
  "real list \<Rightarrow> int \<Rightarrow> int \<Rightarrow> real \<Rightarrow> bool \<Rightarrow> bool \<Rightarrow> int \<Rightarrow> int \<Rightarrow> bool \<Rightarrow> bool \<Rightarrow> byte list
     \<Rightarrow> fault + byte list" where
  "flood_from_edges_or_seed h W H level from_edge seed_set sx sy qx_ok qy_ok mask0 =
     thenf (for_each [0..<nat (W * H)] (\<lambda>i m. wr m (int i) 0) mask0) (\<lambda>m.
       if \<not> qx_ok \<or> \<not> qy_ok then Inr m
       else
         let qcap = W * H;
             s0 = \<lparr>mask_w = m, queue_x = replicate (nat qcap) 0, queue_y = replicate (nat qcap) 0,
                   qh = 0, qt = 0\<rparr>
         in thenf (if from_edge then seed_edges h W H level s0 else Inr s0) (\<lambda>s1.
            thenf (if seed_set then seed_point h W H level sx sy s1 else Inr s1) (\<lambda>s2.
            thenf (bfs_loop h W H level s2) (\<lambda>s3. Inr (mask_w s3)))))"

definition mark_all_below :: "real list \<Rightarrow> int \<Rightarrow> int \<Rightarrow> real \<Rightarrow> byte list \<Rightarrow> fault + byte list" where
  "mark_all_below h W H level mask0 =
     for_each [0..<nat (W * H)] (\<lambda>i m.
       thenf (rd h (int i)) (\<lambda>v. wr m (int i) (if v \<le> level then 1 else 0))) mask0"


subsection \<open>The flooded cells are at or below the level\<close>

lemma for_each_invariant:
  assumes "for_each xs body s = Inr s'" "I s"
    and "\<And>x s s'. x \<in> set xs \<Longrightarrow> I s \<Longrightarrow> body x s = Inr s' \<Longrightarrow> I s'"
  shows "I s'"
  using assms
proof (induction xs arbitrary: s)
  case Nil
  then show ?case by simp
next
  case (Cons x xs)
  from Cons.prems(1) obtain s1 where s1: "body x s = Inr s1" "for_each xs body s1 = Inr s'"
    by (auto simp: thenf_eq_Inr)
  have "I s1" using Cons.prems(2,3) s1(1) by auto
  then show ?case using Cons.IH [OF s1(2)] Cons.prems(3) by auto
qed

lemma for_each_snoc:
  "for_each (xs @ [x]) body s = thenf (for_each xs body s) (body x)"
  by (simp add: for_each_append thenf_def split: sum.splits)

definition mask_sound :: "real list \<Rightarrow> real \<Rightarrow> nat \<Rightarrow> byte list \<Rightarrow> bool" where
  "mask_sound h level n m \<longleftrightarrow>
     n \<le> length m \<and> (\<forall>i<n. m ! i = 0 \<or> (m ! i = 1 \<and> i < length h \<and> h ! i \<le> level))"

lemma zero_loop:
  "for_each [0..<n] (\<lambda>i m. wr m (int i) (0 :: byte)) mask0 = Inr m \<Longrightarrow>
   length m = length mask0 \<and> n \<le> length m \<and> (\<forall>i<n. m ! i = 0)"
proof (induction n arbitrary: m)
  case 0
  then show ?case by simp
next
  case (Suc n)
  from Suc.prems obtain m1 where m1: "for_each [0..<n] (\<lambda>i m. wr m (int i) (0 :: byte)) mask0 = Inr m1"
    "wr m1 (int n) 0 = Inr m"
    by (auto simp: for_each_snoc thenf_eq_Inr)
  from Suc.IH [OF m1(1)] m1(2) show ?case
    by (auto simp: wr_def nth_list_update less_Suc_eq split: if_splits)
qed

lemma mark_all_below_loop:
  "for_each [0..<n] (\<lambda>i m. thenf (rd h (int i)) (\<lambda>v. wr m (int i) (if v \<le> level then 1 else (0 :: byte))))
      mask0 = Inr m \<Longrightarrow>
   length m = length mask0 \<and> n \<le> length m \<and>
   (\<forall>i<n. i < length h \<and> m ! i = (if h ! i \<le> level then 1 else 0))"
proof (induction n arbitrary: m)
  case 0
  then show ?case by simp
next
  case (Suc n)
  from Suc.prems obtain m1 v where m1:
    "for_each [0..<n] (\<lambda>i m. thenf (rd h (int i)) (\<lambda>v. wr m (int i) (if v \<le> level then 1 else (0 :: byte))))
      mask0 = Inr m1"
    "rd h (int n) = Inr v" "wr m1 (int n) (if v \<le> level then 1 else 0) = Inr m"
    by (auto simp: for_each_snoc thenf_eq_Inr)
  from Suc.IH [OF m1(1)] m1(2,3) show ?case
    by (auto simp: wr_def rd_def nth_list_update less_Suc_eq split: if_splits)
qed

lemma mark_enqueue_mask:
  assumes "mark_enqueue W x y s = Inr s'"
  shows "0 \<le> y * W + x \<and> y * W + x < int (length (mask_w s)) \<and> mask_w s' = (mask_w s)[nat (y * W + x) := 1]"
  using assms by (auto simp: mark_enqueue_def thenf_eq_Inr wr_def split: if_splits)

lemma mask_sound_mark:
  assumes "mask_sound h level n (mask_w s)" "mark_enqueue W x y s = Inr s'"
    "rd h (y * W + x) = Inr v" "v \<le> level"
  shows "mask_sound h level n (mask_w s')"
proof -
  from mark_enqueue_mask [OF assms(2)]
  have m: "0 \<le> y * W + x" "mask_w s' = (mask_w s)[nat (y * W + x) := 1]" by auto
  from assms(3,4) have hv: "nat (y * W + x) < length h" "h ! nat (y * W + x) \<le> level"
    by (auto simp: rd_def split: if_splits)
  have len: "n \<le> length (mask_w s')" using assms(1) by (simp add: mask_sound_def m(2))
  have "mask_w s' ! i = 0 \<or> (mask_w s' ! i = 1 \<and> i < length h \<and> h ! i \<le> level)" if i: "i < n" for i
  proof (cases "i = nat (y * W + x)")
    case True
    have "i < length (mask_w s)" using i assms(1) by (simp add: mask_sound_def)
    then show ?thesis using True hv by (simp add: m(2))
  next
    case False
    then show ?thesis using assms(1) i by (simp add: mask_sound_def m(2))
  qed
  with len show ?thesis by (simp add: mask_sound_def)
qed

lemma mask_sound_seed_if_low:
  assumes "mask_sound h level n (mask_w s)" "seed_if_low h W level x y s = Inr s'"
  shows "mask_sound h level n (mask_w s')"
  using assms mask_sound_mark [OF assms(1)]
  by (auto simp: seed_if_low_def thenf_eq_Inr split: if_splits)

lemma mask_sound_seed_edges:
  assumes "mask_sound h level n (mask_w s)" "seed_edges h W H level s = Inr s'"
  shows "mask_sound h level n (mask_w s')"
proof -
  from assms(2) obtain s1 where s1:
    "for_each [0..<nat W] (\<lambda>x s.
              thenf (seed_if_low h W level (int x) 0 s) (seed_if_low h W level (int x) (H - 1))) s = Inr s1"
    "for_each [0..<nat H] (\<lambda>y s.
              thenf (seed_if_low h W level 0 (int y) s) (seed_if_low h W level (W - 1) (int y))) s1 = Inr s'"
    unfolding seed_edges_def thenf_eq_Inr by blast
  have "mask_sound h level n (mask_w s1)"
    by (rule for_each_invariant [OF s1(1), where I = "\<lambda>s. mask_sound h level n (mask_w s)"])
      (auto simp: assms(1) thenf_eq_Inr dest: mask_sound_seed_if_low)
  then show ?thesis
    by (rule for_each_invariant [OF s1(2), where I = "\<lambda>s. mask_sound h level n (mask_w s)"])
      (auto simp: thenf_eq_Inr dest: mask_sound_seed_if_low)
qed

lemma mask_sound_seed_point:
  assumes "mask_sound h level n (mask_w s)" "seed_point h W H level sx sy s = Inr s'"
  shows "mask_sound h level n (mask_w s')"
  using assms mask_sound_mark [OF assms(1)]
  by (auto simp: seed_point_def Let_def thenf_eq_Inr split: if_splits)

lemma mask_sound_visit:
  assumes "mask_sound h level n (mask_w s)" "visit h W H level cx cy d s = Inr s'"
  shows "mask_sound h level n (mask_w s')"
  using assms mask_sound_mark [OF assms(1)]
  by (auto simp: visit_def Let_def thenf_eq_Inr split: if_splits)

lemma mask_sound_bfs_step:
  assumes "mask_sound h level n (mask_w s)" "bfs_step h W H level s = Inr s'"
  shows "mask_sound h level n (mask_w s')"
proof -
  from assms(2) obtain cx cy where c:
    "for_each [(1, 0), (- 1, 0), (0, 1), (0, - 1)] (visit h W H level cx cy) (s\<lparr>qh := qh s + 1\<rparr>) = Inr s'"
    unfolding bfs_step_def thenf_eq_Inr by blast
  show ?thesis
    by (rule for_each_invariant [OF c, where I = "\<lambda>s. mask_sound h level n (mask_w s)"])
      (auto simp: assms(1) dest: mask_sound_visit)
qed

lemma mask_sound_bfs_loop:
  "mask_sound h level n (mask_w s) \<Longrightarrow> bfs_loop h W H level s = Inr s' \<Longrightarrow>
   mask_sound h level n (mask_w s')"
proof (induction h W H level s rule: bfs_loop.induct)
  case (1 h W H level s)
  show ?case
  proof (cases "qh s < qt s")
    case False
    then have "s' = s" using "1.prems"(2) by (subst (asm) bfs_loop.simps) simp
    then show ?thesis using "1.prems"(1) by simp
  next
    case True
    from "1.prems"(2) True obtain s1 where s1: "bfs_step h W H level s = Inr s1"
      "bfs_loop h W H level s1 = Inr s'"
      by (subst (asm) bfs_loop.simps) (auto split: sum.splits)
    from "1.IH" [OF True s1(1) mask_sound_bfs_step [OF "1.prems"(1) s1(1)] s1(2)]
    show ?thesis .
  qed
qed

lemma flood_mask_sound:
  assumes "flood_from_edges_or_seed h W H level from_edge seed_set sx sy qx_ok qy_ok mask0 = Inr m"
  shows "mask_sound h level (nat (W * H)) m"
proof -
  from assms obtain m0 where m0:
    "for_each [0..<nat (W * H)] (\<lambda>i m. wr m (int i) 0) mask0 = Inr m0"
    "(if \<not> qx_ok \<or> \<not> qy_ok then Inr m0
       else
         let qcap = W * H;
             s0 = \<lparr>mask_w = m0, queue_x = replicate (nat qcap) 0, queue_y = replicate (nat qcap) 0,
                   qh = 0, qt = 0\<rparr>
         in thenf (if from_edge then seed_edges h W H level s0 else Inr s0) (\<lambda>s1.
            thenf (if seed_set then seed_point h W H level sx sy s1 else Inr s1) (\<lambda>s2.
            thenf (bfs_loop h W H level s2) (\<lambda>s3. Inr (mask_w s3))))) = Inr m"
    unfolding flood_from_edges_or_seed_def thenf_eq_Inr [of "for_each _ _ _"] by blast
  have z: "mask_sound h level (nat (W * H)) m0"
    using zero_loop [OF m0(1)] by (simp add: mask_sound_def)
  show ?thesis
  proof (cases "\<not> qx_ok \<or> \<not> qy_ok")
    case True
    then show ?thesis using m0(2) z by auto
  next
    case False
    define s0 where "s0 = \<lparr>mask_w = m0, queue_x = replicate (nat (W * H)) (0 :: int),
        queue_y = replicate (nat (W * H)) (0 :: int), qh = 0, qt = 0\<rparr>"
    from m0(2) False obtain s1 s2 s3 where st:
      "(if from_edge then seed_edges h W H level s0 else Inr s0) = Inr s1"
      "(if seed_set then seed_point h W H level sx sy s1 else Inr s1) = Inr s2"
      "bfs_loop h W H level s2 = Inr s3" "m = mask_w s3"
      unfolding Let_def s0_def [symmetric] by (auto simp: thenf_eq_Inr)
    have "mask_sound h level (nat (W * H)) (mask_w s0)" using z by (simp add: s0_def)
    then have "mask_sound h level (nat (W * H)) (mask_w s1)"
      using st(1) by (auto split: if_splits dest: mask_sound_seed_edges)
    then have "mask_sound h level (nat (W * H)) (mask_w s2)"
      using st(2) by (auto split: if_splits dest: mask_sound_seed_point)
    then show ?thesis using st(3,4) by (auto dest: mask_sound_bfs_loop)
  qed
qed

text \<open>
  Claim C2. Whenever the edge flood (with or without the extra seed point) returns a
  mask, every cell it marks is marked by \<^verbatim>\<open>mark_all_below\<close> at the same level as well:
  the mask of the edge flood is cell-wise \<open>\<le>\<close> the mask of fill-all.
\<close>

theorem edge_flood_subset_fill_all:
  assumes "flood_from_edges_or_seed h W H level True seed_set sx sy qx_ok qy_ok mask0 = Inr m"
    and "mark_all_below h W H level mask1 = Inr m'"
  shows "\<forall>i < nat (W * H). m ! i \<le> m' ! i"
proof (intro allI impI)
  fix i assume i: "i < nat (W * H)"
  from flood_mask_sound [OF assms(1)] i
  have a: "m ! i = 0 \<or> (m ! i = 1 \<and> i < length h \<and> h ! i \<le> level)"
    by (simp add: mask_sound_def)
  from mark_all_below_loop [OF assms(2) [unfolded mark_all_below_def]] i
  have b: "m' ! i = (if h ! i \<le> level then 1 else 0)" by simp
  from a b show "m ! i \<le> m' ! i" by auto
qed

theorem edge_flood_subset_fill_all_witness:
  "flood_from_edges_or_seed [9/10, 1/10, 9/10, 9/10, 9/10, 1/10, 1/10, 9/10, 9/10, 9/10, 9/10, 9/10,
       9/10, 1/10, 9/10, 9/10, 9/10, 9/10, 9/10, 9/10] 4 5 (2/10) True True 2 2 True True (replicate 20 7)
     = Inr [0, 1, 0, 0, 0, 1, 1, 0, 0, 0, 0, 0, 0, 0, 0, 0, 0, 0, 0, 0]
   \<and> mark_all_below [9/10, 1/10, 9/10, 9/10, 9/10, 1/10, 1/10, 9/10, 9/10, 9/10, 9/10, 9/10,
       9/10, 1/10, 9/10, 9/10, 9/10, 9/10, 9/10, 9/10] 4 5 (2/10) (replicate 20 7)
     = Inr [0, 1, 0, 0, 0, 1, 1, 0, 0, 0, 0, 0, 0, 1, 0, 0, 0, 0, 0, 0]
   \<and> [0, 1, 0, 0, 0, 1, 1, 0, 0, 0, 0, 0, 0, 0, 0, 0, 0, 0, 0, 0 :: byte] ! 5
          \<le> [0, 1, 0, 0, 0, 1, 1, 0, 0, 0, 0, 0, 0, 1, 0, 0, 0, 0, 0, 0] ! 5
   \<and> [0, 1, 0, 0, 0, 1, 1, 0, 0, 0, 0, 0, 0, 0, 0, 0, 0, 0, 0, 0 :: byte] ! 13
          \<le> [0, 1, 0, 0, 0, 1, 1, 0, 0, 0, 0, 0, 0, 1, 0, 0, 0, 0, 0, 0] ! 13"
proof -
  have a: "flood_from_edges_or_seed [9/10, 1/10, 9/10, 9/10, 9/10, 1/10, 1/10, 9/10, 9/10, 9/10, 9/10, 9/10,
       9/10, 1/10, 9/10, 9/10, 9/10, 9/10, 9/10, 9/10] 4 5 (2/10) True True 2 2 True True (replicate 20 7)
     = Inr [0, 1, 0, 0, 0, 1, 1, 0, 0, 0, 0, 0, 0, 0, 0, 0, 0, 0, 0, 0]"
    by code_simp
  have b: "mark_all_below [9/10, 1/10, 9/10, 9/10, 9/10, 1/10, 1/10, 9/10, 9/10, 9/10, 9/10, 9/10,
       9/10, 1/10, 9/10, 9/10, 9/10, 9/10, 9/10, 9/10] 4 5 (2/10) (replicate 20 7)
     = Inr [0, 1, 0, 0, 0, 1, 1, 0, 0, 0, 0, 0, 0, 1, 0, 0, 0, 0, 0, 0]"
    by code_simp
  have c: "(5 :: nat) < nat (4 * 5)" "(13 :: nat) < nat (4 * 5)" by simp_all
  from edge_flood_subset_fill_all [OF a b] c a b show ?thesis by blast
qed

text \<open>
  Claim C1, the failing inputs. The border loops enqueue each flooded corner cell twice
  (once in the loop over \<open>x\<close>, once in the loop over \<open>y\<close>) without consulting the mask,
  so a grid that is flooded almost everywhere needs more than \<open>W * H\<close> queue entries.
  On the flat \<open>2 \<times> 2\<close> grid below the level, and on the flat \<open>4 \<times> 4\<close> grid at elevation
  \<open>0.3\<close> with level \<open>0.3\<close> of the specification's scenario B, the run writes past the end
  of the queue instead of returning the mask of all cells.
\<close>

theorem edge_flood_queue_overflow:
  "flood_from_edges_or_seed [0, 0, 0, 0] 2 2 (1/2) True False 0 0 True True (replicate 4 0)
     = Inl OutOfBounds
   \<and> flood_from_edges_or_seed [3/10, 3/10, 3/10, 3/10, 3/10, 3/10, 3/10, 3/10,
        3/10, 3/10, 3/10, 3/10, 3/10, 3/10, 3/10, 3/10] 4 4 (3/10) True False 0 0 True True
        (replicate 16 0)
     = Inl OutOfBounds"
  by code_simp

text \<open>
  On the flat \<open>2 \<times> 2\<close> grid every cell is a border cell at or below the level, so the
  mask of the claim is all ones; the run does not return it.
\<close>

theorem edge_flood_queue_overflow_witness:
  "flood_from_edges_or_seed [0, 0, 0, 0] 2 2 (1/2) True False 0 0 True True (replicate 4 0)
     \<noteq> Inr [1, 1, 1, 1]"
  using edge_flood_queue_overflow by simp

section \<open>Diamond-square synthesis of the geo program\<close>

text \<open>
  \<^verbatim>\<open>geo.c\<close>: the generator (\<^verbatim>\<open>rng_srand\<close>, \<^verbatim>\<open>rng_nextu\<close>, \<^verbatim>\<open>rng_rand01\<close>,
  \<^verbatim>\<open>rng_randm1p1\<close>), \<^verbatim>\<open>clamp01d\<close> and \<^verbatim>\<open>ds_generate\<close>. The state of the synthesis is
  the buffer \<^verbatim>\<open>buf\<close> and the global \<^verbatim>\<open>rng_state\<close>. The buffer comes from \<^verbatim>\<open>malloc\<close>:
  its initial cells are whatever the run is started with, and every read of a cell is a
  read of the current list.

  The strided loops \<^verbatim>\<open>for (i = a; i < n; i += st)\<close> run over \<open>strided a n st\<close>; the
  stride is \<^verbatim>\<open>half\<close> or \<^verbatim>\<open>step\<close> with \<open>step > 1\<close>, hence positive. The exponent
  \<^verbatim>\<open>(int)(log(P-1)/log(2.0)) - (int)(log(step)/log(2.0))\<close> is taken with exact binary
  logarithms (\<open>ilog2\<close>), and \<^verbatim>\<open>pow\<close> with a natural exponent is the power.

  The index expressions of the diamond step are those of the source:
  \<^verbatim>\<open>x + half - step + step - half\<close> and \<^verbatim>\<open>y + half - step + step - half\<close>.
\<close>

type_synonym ulong = "64 word"

definition rng_srand :: "ulong \<Rightarrow> ulong" where
  "rng_srand s = (if s = 0 then 1 else s)"

definition rng_nextu :: "ulong \<Rightarrow> ulong" where
  "rng_nextu st = st * 1664525 + 1013904223"

definition rng_rand01 :: "ulong \<Rightarrow> real \<times> ulong" where
  "rng_rand01 st = (let u = rng_nextu st in (real (unat (u AND 0xFFFFFF)) / real 0x1000000, u))"

definition rng_randm1p1 :: "ulong \<Rightarrow> real \<times> ulong" where
  "rng_randm1p1 st = (let (r, st') = rng_rand01 st in (r * 2 - 1, st'))"

definition clamp01d :: "real \<Rightarrow> real" where
  "clamp01d v = (if v < 0 then 0 else if v > 1 then 1 else v)"

record ds_state =
  ds_buf :: "real list"
  rng_state :: ulong

function strided :: "int \<Rightarrow> int \<Rightarrow> int \<Rightarrow> int list" where
  "strided i n st = (if i < n \<and> 0 < st then i # strided (i + st) n st else [])"
  by pat_completeness auto
termination
  by (relation "measure (\<lambda>(i, n, st). nat (n - i))") auto

declare strided.simps [simp del]

function ilog2 :: "int \<Rightarrow> nat" where
  "ilog2 n = (if n < 2 then 0 else Suc (ilog2 (n div 2)))"
  by pat_completeness auto
termination
  by (relation "measure nat") auto

declare ilog2.simps [simp del]

definition ds_scale :: "real \<Rightarrow> real \<Rightarrow> int \<Rightarrow> int \<Rightarrow> real" where
  "ds_scale amp0 rough P step = amp0 * rough ^ (ilog2 (P - 1) - ilog2 step)"

definition store_rand01 :: "int \<Rightarrow> ds_state \<Rightarrow> fault + ds_state" where
  "store_rand01 i s =
     (let (r, st) = rng_rand01 (rng_state s)
      in thenf (wr (ds_buf s) i r) (\<lambda>b. Inr \<lparr>ds_buf = b, rng_state = st\<rparr>))"

definition store_displaced :: "int \<Rightarrow> real \<Rightarrow> real \<Rightarrow> ds_state \<Rightarrow> fault + ds_state" where
  "store_displaced i avg scale s =
     (let (r, st) = rng_randm1p1 (rng_state s);
          off = r * scale
      in thenf (wr (ds_buf s) i (clamp01d (avg + off))) (\<lambda>b. Inr \<lparr>ds_buf = b, rng_state = st\<rparr>))"

definition diamond_cell :: "int \<Rightarrow> int \<Rightarrow> int \<Rightarrow> real \<Rightarrow> int \<Rightarrow> int \<Rightarrow> ds_state \<Rightarrow> fault + ds_state" where
  "diamond_cell P half step scale y x s =
     thenf (rd (ds_buf s) ((y - half) * P + (x - half))) (\<lambda>a.
     thenf (rd (ds_buf s) ((y - half) * P + (x + half - step + step - half))) (\<lambda>b.
     thenf (rd (ds_buf s) ((y + half - step + step - half) * P + (x - half))) (\<lambda>c.
     thenf (rd (ds_buf s) ((y + half - step + step - half) * P + (x + half - step + step - half))) (\<lambda>d.
     let avg = (a + b + c + d) * (1 / 4)
     in store_displaced (y * P + x) avg scale s))))"

definition add_cell :: "real list \<Rightarrow> bool \<Rightarrow> int \<Rightarrow> real \<times> int \<Rightarrow> fault + real \<times> int" where
  "add_cell b c i acc =
     (if c then thenf (rd b i) (\<lambda>v. Inr (fst acc + v, snd acc + 1)) else Inr acc)"

definition square_cell :: "int \<Rightarrow> int \<Rightarrow> real \<Rightarrow> int \<Rightarrow> int \<Rightarrow> ds_state \<Rightarrow> fault + ds_state" where
  "square_cell P half scale y x s =
     thenf (add_cell (ds_buf s) (x - half \<ge> 0) (y * P + (x - half)) (0, 0)) (\<lambda>acc.
     thenf (add_cell (ds_buf s) (x + half < P) (y * P + (x + half)) acc) (\<lambda>acc.
     thenf (add_cell (ds_buf s) (y - half \<ge> 0) ((y - half) * P + x) acc) (\<lambda>acc.
     thenf (add_cell (ds_buf s) (y + half < P) ((y + half) * P + x) acc) (\<lambda>(sum, cnt).
     if cnt > 0
     then let avg = sum / real_of_int cnt in store_displaced (y * P + x) avg scale s
     else Inr s))))"

definition diamond_pass :: "int \<Rightarrow> int \<Rightarrow> int \<Rightarrow> real \<Rightarrow> ds_state \<Rightarrow> fault + ds_state" where
  "diamond_pass P half step scale =
     for_each (strided half P step) (\<lambda>y.
       for_each (strided half P step) (\<lambda>x. diamond_cell P half step scale y x))"

definition square_pass :: "int \<Rightarrow> int \<Rightarrow> int \<Rightarrow> real \<Rightarrow> ds_state \<Rightarrow> fault + ds_state" where
  "square_pass P half step scale =
     for_each (strided 0 P half) (\<lambda>y.
       let xstart = (if (y div half) mod 2 = 0 then half else 0)
       in for_each (strided xstart P step) (\<lambda>x. square_cell P half scale y x))"

function ds_levels :: "real \<Rightarrow> real \<Rightarrow> int \<Rightarrow> int \<Rightarrow> ds_state \<Rightarrow> fault + ds_state" where
  "ds_levels amp0 rough P step s =
     (if step > 1
      then
        let half = step div 2;
            scale = ds_scale amp0 rough P step
        in (case diamond_pass P half step scale s of
              Inl e \<Rightarrow> Inl e
            | Inr s1 \<Rightarrow>
                (case square_pass P half step scale s1 of
                   Inl e \<Rightarrow> Inl e
                 | Inr s2 \<Rightarrow> ds_levels amp0 rough P (step div 2) s2))
      else Inr s)"
  by pat_completeness auto
termination
  by (relation "measure (\<lambda>(amp0, rough, P, step, s). nat step)") auto

declare ds_levels.simps [simp del]

definition ds_generate :: "real \<Rightarrow> real \<Rightarrow> int \<Rightarrow> ds_state \<Rightarrow> fault + ds_state" where
  "ds_generate amp0 rough P s =
     thenf (store_rand01 0 s) (\<lambda>s.
     thenf (store_rand01 (P - 1) s) (\<lambda>s.
     thenf (store_rand01 ((P - 1) * P) s) (\<lambda>s.
     thenf (store_rand01 ((P - 1) * P + (P - 1)) s) (\<lambda>s.
     ds_levels amp0 rough P (P - 1) s))))"



section \<open>Smoothing\<close>

text \<open>
  \<^verbatim>\<open>smooth_box\<close> of \<^verbatim>\<open>geo.c\<close> (window \<open>3 \<times> 3\<close>, one temporary buffer per pass) and
  \<^verbatim>\<open>box_blur\<close> of \<^verbatim>\<open>plasma.c\<close> (radius \<open>r\<close>, one temporary buffer for all passes, the
  passes alternating between the two buffers). Both sum the window with its coordinates
  clamped to the grid and divide by the count; \<open>box_pass\<close> is that pass with radius
  \<open>r\<close>. A failed \<^verbatim>\<open>malloc\<close> of the temporary buffer makes either function return at
  once: \<open>tmp_ok p\<close> tells whether the allocation of pass \<open>p\<close> succeeds, and
  \<open>tmp_alloc\<close> is the allocated buffer or \<open>None\<close>.
\<close>

definition clamp_idx :: "int \<Rightarrow> int \<Rightarrow> int" where
  "clamp_idx c n = (let c = (if c < 0 then 0 else c) in if c \<ge> n then n - 1 else c)"

definition window_sum :: "real list \<Rightarrow> int \<Rightarrow> int \<Rightarrow> int \<Rightarrow> int \<Rightarrow> int \<Rightarrow> fault + real \<times> int" where
  "window_sum src W H r x y =
     for_each [y - r..y + r] (\<lambda>yy.
       for_each [x - r..x + r] (\<lambda>xx acc.
         thenf (rd src (clamp_idx yy H * W + clamp_idx xx W)) (\<lambda>v.
         Inr (fst acc + v, snd acc + 1)))) (0, 0)"

definition box_cell :: "real list \<Rightarrow> int \<Rightarrow> int \<Rightarrow> int \<Rightarrow> int \<Rightarrow> int \<Rightarrow> fault + real" where
  "box_cell src W H r x y =
     thenf (window_sum src W H r x y) (\<lambda>(sum, cnt). Inr (sum / real_of_int cnt))"

definition box_pass :: "real list \<Rightarrow> int \<Rightarrow> int \<Rightarrow> int \<Rightarrow> fault + real list" where
  "box_pass src W H r =
     thenf (collect (map (\<lambda>y. collect (map (\<lambda>x. box_cell src W H r (int x) (int y)) [0..<nat W]))
                         [0..<nat H]))
       (\<lambda>rows. Inr (concat rows))"

definition copy_cells :: "real list \<Rightarrow> real list \<Rightarrow> int \<Rightarrow> int \<Rightarrow> fault + real list" where
  "copy_cells dst src W H =
     for_each [0..<nat W * nat H] (\<lambda>i b. thenf (rd src (int i)) (\<lambda>v. wr b (int i) v)) dst"

fun smooth_passes :: "(nat \<Rightarrow> bool) \<Rightarrow> int \<Rightarrow> int \<Rightarrow> nat list \<Rightarrow> real list \<Rightarrow> fault + real list" where
  "smooth_passes tmp_ok W H [] buf = Inr buf"
| "smooth_passes tmp_ok W H (p # ps) buf =
     (if \<not> tmp_ok p then Inr buf
      else thenf (box_pass buf W H 1) (\<lambda>tmp.
           thenf (copy_cells buf tmp W H) (smooth_passes tmp_ok W H ps)))"

definition smooth_box :: "real list \<Rightarrow> int \<Rightarrow> int \<Rightarrow> int \<Rightarrow> (nat \<Rightarrow> bool) \<Rightarrow> fault + real list" where
  "smooth_box buf W H passes tmp_ok =
     (if passes \<le> 0 then Inr buf else smooth_passes tmp_ok W H [0..<nat passes] buf)"

fun blur_passes :: "int \<Rightarrow> int \<Rightarrow> int \<Rightarrow> nat list \<Rightarrow> real list \<times> real list \<Rightarrow> fault + real list \<times> real list" where
  "blur_passes W H r [] gt = Inr gt"
| "blur_passes W H r (pass # ps) (grid, tmp) =
     (if pass mod 2 = 0
      then thenf (box_pass grid W H r) (\<lambda>dst. thenf (copy_cells tmp dst W H) (\<lambda>tmp.
             blur_passes W H r ps (grid, tmp)))
      else thenf (box_pass tmp W H r) (\<lambda>dst. thenf (copy_cells grid dst W H) (\<lambda>grid.
             blur_passes W H r ps (grid, tmp))))"

definition box_blur :: "real list \<Rightarrow> int \<Rightarrow> int \<Rightarrow> int \<Rightarrow> int \<Rightarrow> real list option \<Rightarrow> fault + real list" where
  "box_blur grid W H r p tmp_alloc =
     (if r \<le> 0 \<or> p \<le> 0 then Inr grid
      else case tmp_alloc of
        None \<Rightarrow> Inr grid
      | Some tmp \<Rightarrow>
          thenf (blur_passes W H r [0..<nat p] (grid, tmp)) (\<lambda>(grid, tmp).
            if p mod 2 = 1 then copy_cells grid tmp W H else Inr grid))"

text \<open>
  The end of the plasma pipeline: \<^verbatim>\<open>normalize01\<close>, then \<^verbatim>\<open>apply_gamma\<close>, then printing.
\<close>

definition apply_gamma :: "real list \<Rightarrow> real \<Rightarrow> real list" where
  "apply_gamma grid gamma =
     (if gamma \<le> 0 \<or> \<bar>gamma - 1\<bar> < 1 / 10 ^ 12 then grid
      else map (\<lambda>v. let v = (if v < 0 then 0 else v); v = (if v > 1 then 1 else v)
                   in v powr (1 / gamma)) grid)"

definition plasma_finish :: "real list \<Rightarrow> real \<Rightarrow> fault + real list" where
  "plasma_finish dst gamma = thenf (normalize01 dst) (\<lambda>g. Inr (apply_gamma g gamma))"

section \<open>The run of the geo program\<close>

text \<open>
  \<^verbatim>\<open>main\<close> of \<^verbatim>\<open>geo.c\<close> after option parsing, for a run that prints values and writes
  no colour map (no \<^verbatim>\<open>-o\<close>). \<open>geo_config\<close> holds the option variables; \<open>geo_env\<close> holds
  what the C library decides: whether each \<^verbatim>\<open>malloc\<close> succeeds and the initial content
  of the buffers it returns. The result is the exit status, the messages on the error
  stream and the values printed, in order.
\<close>

record geo_config =
  GRID_W :: int
  GRID_H :: int
  SEED :: ulong
  AMP0 :: real
  ROUGH :: real
  SMOOTH_PASSES :: int
  WATER_ENABLE :: bool
  WATER_LEVEL :: real
  WATER_FROM_EDGE :: bool
  WATER_SEED_SET :: bool
  WATER_SEED_X :: int
  WATER_SEED_Y :: int
  VALUES_WITH_WATER :: bool
  OUT_VALUES :: bool

record geo_env =
  ds_ok :: bool
  map_ok :: bool
  tmp_ok :: "nat \<Rightarrow> bool"
  water_ok :: bool
  qx_ok :: bool
  qy_ok :: bool
  ds_junk :: "nat \<Rightarrow> real"
  water_junk :: "nat \<Rightarrow> byte"

record geo_result =
  status :: int
  diagnostics :: "string list"
  printed :: "real list"

definition geo_terrain :: "geo_config \<Rightarrow> geo_env \<Rightarrow> int \<Rightarrow> fault + real list" where
  "geo_terrain cfg env P =
     thenf (ds_generate (AMP0 cfg) (ROUGH cfg) P
              \<lparr>ds_buf = map (ds_junk env) [0..<nat (P * P)], rng_state = rng_srand (SEED cfg)\<rparr>) (\<lambda>ds.
     thenf (geo_resample_bilinear (ds_buf ds) P (GRID_W cfg) (GRID_H cfg)) (\<lambda>m.
     if SMOOTH_PASSES cfg > 0
     then smooth_box m (GRID_W cfg) (GRID_H cfg) (SMOOTH_PASSES cfg) (tmp_ok env)
     else Inr m))"

definition geo_water :: "geo_config \<Rightarrow> geo_env \<Rightarrow> real list \<Rightarrow> fault + byte list" where
  "geo_water cfg env m =
     (let mask0 = map (water_junk env) [0..<nat (GRID_W cfg * GRID_H cfg)]
      in if WATER_FROM_EDGE cfg
         then flood_from_edges_or_seed m (GRID_W cfg) (GRID_H cfg) (WATER_LEVEL cfg) True
                (WATER_SEED_SET cfg) (WATER_SEED_X cfg) (WATER_SEED_Y cfg) (qx_ok env) (qy_ok env) mask0
         else mark_all_below m (GRID_W cfg) (GRID_H cfg) (WATER_LEVEL cfg) mask0)"

definition print_cell :: "geo_config \<Rightarrow> real list \<Rightarrow> byte list option \<Rightarrow> int \<Rightarrow> fault + real" where
  "print_cell cfg m water i =
     thenf (rd m i) (\<lambda>v.
       if WATER_ENABLE cfg \<and> VALUES_WITH_WATER cfg
       then (case water of
               None \<Rightarrow> Inr v
             | Some w \<Rightarrow> thenf (rd w i) (\<lambda>b. Inr (if b \<noteq> 0 then WATER_LEVEL cfg else v)))
       else Inr v)"

definition geo_print :: "geo_config \<Rightarrow> real list \<Rightarrow> byte list option \<Rightarrow> fault + real list" where
  "geo_print cfg m water =
     (if OUT_VALUES cfg
      then collect (map (\<lambda>i. print_cell cfg m water (int i)) [0..<nat (GRID_W cfg) * nat (GRID_H cfg)])
      else Inr [])"

definition geo_main :: "geo_config \<Rightarrow> geo_env \<Rightarrow> fault + geo_result" where
  "geo_main cfg env =
     thenf (geo_side (GRID_W cfg) (GRID_H cfg)) (\<lambda>P.
       if \<not> ds_ok env \<or> \<not> map_ok env
       then Inr \<lparr>status = 1, diagnostics = [''Alloc DS/map impossible.''], printed = []\<rparr>
       else
         thenf (geo_terrain cfg env P) (\<lambda>m.
           if WATER_ENABLE cfg \<and> \<not> water_ok env
           then Inr \<lparr>status = 1, diagnostics = [''Alloc eau impossible.''], printed = []\<rparr>
           else
             thenf (if WATER_ENABLE cfg then thenf (geo_water cfg env m) (\<lambda>w. Inr (Some w))
                    else Inr None) (\<lambda>water.
             thenf (geo_print cfg m water) (\<lambda>out.
             Inr \<lparr>status = 0, diagnostics = [], printed = out\<rparr>))))"


section \<open>Runs of the geo program\<close>

text \<open>Concrete runs: seed 42, amplitude 1, roughness 0.65, every allocation succeeding.\<close>

definition geo_cfg :: "int \<Rightarrow> int \<Rightarrow> int \<Rightarrow> geo_config" where
  "geo_cfg W H passes = \<lparr>GRID_W = W, GRID_H = H, SEED = 42, AMP0 = 1, ROUGH = 65 / 100,
     SMOOTH_PASSES = passes, WATER_ENABLE = False, WATER_LEVEL = 1 / 2, WATER_FROM_EDGE = True,
     WATER_SEED_SET = False, WATER_SEED_X = 0, WATER_SEED_Y = 0, VALUES_WITH_WATER = False,
     OUT_VALUES = True\<rparr>"

definition env_ok :: geo_env where
  "env_ok = \<lparr>ds_ok = True, map_ok = True, tmp_ok = (\<lambda>_. True), water_ok = True, qx_ok = True,
     qy_ok = True, ds_junk = (\<lambda>_. 0), water_junk = (\<lambda>_. 0)\<rparr>"

lemmas geo_eval =
  geo_main_def geo_terrain_def geo_print_def print_cell_def geo_water_def geo_side_def geo_n_loop.simps
  ds_generate_def store_rand01_def store_displaced_def diamond_cell_def square_cell_def
  add_cell_def diamond_pass_def square_pass_def ds_levels.simps strided.simps ilog2.simps
  ds_scale_def rng_srand_def rng_rand01_def rng_randm1p1_def rng_nextu_def clamp01d_def
  geo_resample_bilinear_def geo_resample_row_def geo_resample_cell_def src_coord_def upper_idx_def
  bilerp_def smooth_box_def flood_from_edges_or_seed_def
  rd_def wr_def Let_def upt_conv_Cons geo_cfg_def env_ok_def

text \<open>
  Claim C4, the failing input. The diamond step of \<^verbatim>\<open>ds_generate\<close> reads
  \<^verbatim>\<open>buf[(y-half)*P + x]\<close>, \<^verbatim>\<open>buf[y*P + (x-half)]\<close> and \<^verbatim>\<open>buf[y*P + x]\<close>, cells that
  have not been written yet, instead of the three other corners its comments name. The
  grid therefore depends on the initial content of the buffer \<^verbatim>\<open>malloc\<close> returned: two
  runs of \<^verbatim>\<open>geo -x 3 -y 3 -s 42\<close> that differ only in that content print different
  grids.
\<close>

theorem geo_output_depends_on_uninitialised_cells:
  "geo_main (geo_cfg 3 3 0) env_ok =
     Inr \<lparr>status = 0, diagnostics = [],
          printed = [10072449 / 16777216, 8836751 / 16777216, 2348859 / 4194304,
                     11814571 / 25165824, 0, 4097579 / 25165824, 13153115 / 16777216,
                     16417797 / 16777216, 8169599 / 8388608]\<rparr>
   \<and> geo_main (geo_cfg 3 3 0) (env_ok\<lparr>ds_junk := (\<lambda>_. 1)\<rparr>) =
     Inr \<lparr>status = 0, diagnostics = [],
          printed = [10072449 / 16777216, 122020445 / 201326592, 2348859 / 4194304,
                     110496001 / 201326592, 15979433 / 67108864, 16253355 / 67108864,
                     13153115 / 16777216, 1, 8169599 / 8388608]\<rparr>
   \<and> geo_main (geo_cfg 3 3 0) env_ok \<noteq> geo_main (geo_cfg 3 3 0) (env_ok\<lparr>ds_junk := (\<lambda>_. 1)\<rparr>)"
proof -
  have a: "geo_main (geo_cfg 3 3 0) env_ok =
     Inr \<lparr>status = 0, diagnostics = [],
          printed = [10072449 / 16777216, 8836751 / 16777216, 2348859 / 4194304,
                     11814571 / 25165824, 0, 4097579 / 25165824, 13153115 / 16777216,
                     16417797 / 16777216, 8169599 / 8388608]\<rparr>"
    by (simp add: geo_eval)
  have b: "geo_main (geo_cfg 3 3 0) (env_ok\<lparr>ds_junk := (\<lambda>_. 1)\<rparr>) =
     Inr \<lparr>status = 0, diagnostics = [],
          printed = [10072449 / 16777216, 122020445 / 201326592, 2348859 / 4194304,
                     110496001 / 201326592, 15979433 / 67108864, 16253355 / 67108864,
                     13153115 / 16777216, 1, 8169599 / 8388608]\<rparr>"
    by (simp add: geo_eval)
  show ?thesis unfolding a b by simp
qed

text \<open>The centre cell of the two runs: 0 in one, about 0.238 in the other.\<close>

theorem geo_output_depends_on_uninitialised_cells_witness:
  "\<exists>r r'. geo_main (geo_cfg 3 3 0) env_ok = Inr r
     \<and> geo_main (geo_cfg 3 3 0) (env_ok\<lparr>ds_junk := (\<lambda>_. 1)\<rparr>) = Inr r'
     \<and> printed r ! 4 = 0 \<and> printed r' ! 4 = 15979433 / 67108864"
  using geo_output_depends_on_uninitialised_cells by simp

lemma geo_run_smoother_alloc_fails:
  "geo_main (geo_cfg 2 2 1) (env_ok\<lparr>tmp_ok := (\<lambda>_. False)\<rparr>) =
     Inr \<lparr>status = 0, diagnostics = [],
          printed = [10072449 / 16777216, 2348859 / 4194304, 13153115 / 16777216,
                     8169599 / 8388608]\<rparr>"
  by (simp add: geo_eval)

lemma geo_run_unsmoothed:
  "geo_main (geo_cfg 2 2 0) env_ok =
     Inr \<lparr>status = 0, diagnostics = [],
          printed = [10072449 / 16777216, 2348859 / 4194304, 13153115 / 16777216,
                     8169599 / 8388608]\<rparr>"
  by (simp add: geo_eval)

lemma geo_run_queue_alloc_fails:
  "geo_main ((geo_cfg 2 2 0)\<lparr>WATER_ENABLE := True, WATER_LEVEL := 7 / 10, VALUES_WITH_WATER := True\<rparr>)
        (env_ok\<lparr>qx_ok := False\<rparr>) =
     Inr \<lparr>status = 0, diagnostics = [],
          printed = [10072449 / 16777216, 2348859 / 4194304, 13153115 / 16777216,
                     8169599 / 8388608]\<rparr>"
  by (simp add: geo_eval)

lemma geo_run_ds_alloc_fails:
  "geo_main (geo_cfg 2 2 1) (env_ok\<lparr>ds_ok := False\<rparr>) =
     Inr \<lparr>status = 1, diagnostics = [''Alloc DS/map impossible.''], printed = []\<rparr>"
  by (simp add: geo_main_def geo_side_def geo_n_loop.simps geo_cfg_def env_ok_def)

text \<open>
  Claim C8 as stated fails. With \<^verbatim>\<open>-f 1\<close> and the allocation of the smoother's temporary
  buffer failing, the run ends with status 0 and no message, and prints the grid of the
  run without smoothing. With \<^verbatim>\<open>--sea 0.7 --values-with-water\<close> and the allocation of
  a flood queue failing, the run ends with status 0 and no message, and prints the
  grid with no cell flooded although two cells lie below the level.
\<close>

theorem smoother_alloc_failure_counterexample:
  "geo_main (geo_cfg 2 2 1) (env_ok\<lparr>tmp_ok := (\<lambda>_. False)\<rparr>) =
     Inr \<lparr>status = 0, diagnostics = [],
          printed = [10072449 / 16777216, 2348859 / 4194304, 13153115 / 16777216,
                     8169599 / 8388608]\<rparr>
   \<and> geo_main (geo_cfg 2 2 1) (env_ok\<lparr>tmp_ok := (\<lambda>_. False)\<rparr>) = geo_main (geo_cfg 2 2 0) env_ok
   \<and> geo_main ((geo_cfg 2 2 0)\<lparr>WATER_ENABLE := True, WATER_LEVEL := 7 / 10, VALUES_WITH_WATER := True\<rparr>)
        (env_ok\<lparr>qx_ok := False\<rparr>) =
     Inr \<lparr>status = 0, diagnostics = [],
          printed = [10072449 / 16777216, 2348859 / 4194304, 13153115 / 16777216,
                     8169599 / 8388608]\<rparr>"
  by (simp add: geo_run_smoother_alloc_fails geo_run_unsmoothed geo_run_queue_alloc_fails)

lemma zero_loop_replicate:
  assumes "length mask0 = n"
  shows "for_each [0..<n] (\<lambda>i m. wr m (int i) (0 :: byte)) mask0 = Inr (replicate n 0)"
proof -
  have "\<exists>m. for_each [0..<k] (\<lambda>i m. wr m (int i) (0 :: byte)) mask0 = Inr m
          \<and> length m = length mask0 \<and> (\<forall>i<k. m ! i = 0)" if "k \<le> n" for k
    using that
  proof (induction k)
    case 0
    then show ?case by simp
  next
    case (Suc k)
    then obtain m where m: "for_each [0..<k] (\<lambda>i m. wr m (int i) (0 :: byte)) mask0 = Inr m"
      "length m = length mask0" "\<forall>i<k. m ! i = 0" by auto
    have "for_each [0..<Suc k] (\<lambda>i m. wr m (int i) (0 :: byte)) mask0 = Inr (m[k := 0])"
      using m(1,2) Suc.prems assms by (simp add: for_each_snoc wr_def)
    moreover have "\<forall>i<Suc k. m[k := 0] ! i = 0"
      using m(2,3) Suc.prems assms by (auto simp: nth_list_update less_Suc_eq)
    ultimately show ?case using m(2) by auto
  qed
  from this [of n] obtain m where m: "for_each [0..<n] (\<lambda>i m. wr m (int i) (0 :: byte)) mask0 = Inr m"
    "length m = n" "\<forall>i<n. m ! i = 0" using assms by auto
  have "m = replicate n 0" using m(2,3) by (intro nth_equalityI) auto
  with m(1) show ?thesis by simp
qed

text \<open>
  Claim C8, as amended. In \<^verbatim>\<open>geo.c\<close> a failed allocation of the synthesis buffer, of the
  map or of the water mask ends the run with status 1, a message and nothing printed.
  A failed allocation inside a stage is not reported: \<^verbatim>\<open>smooth_box\<close> and \<^verbatim>\<open>box_blur\<close>
  return the grid as it is, \<^verbatim>\<open>flood_from_edges_or_seed\<close> returns the mask with no cell
  flooded, and a run whose allocations in \<^verbatim>\<open>main\<close> succeed ends with status 0 and no
  message whatever happens to the allocations inside the stages.
\<close>

theorem alloc_failure_handling:
  "(geo_main cfg env = Inr r \<and> (\<not> ds_ok env \<or> \<not> map_ok env \<or> (WATER_ENABLE cfg \<and> \<not> water_ok env))
      \<longrightarrow> status r = 1 \<and> diagnostics r \<noteq> [] \<and> printed r = [])
   \<and> (geo_main cfg' env' = Inr r' \<and> ds_ok env' \<and> map_ok env' \<and> (WATER_ENABLE cfg' \<longrightarrow> water_ok env')
      \<longrightarrow> status r' = 0 \<and> diagnostics r' = [])
   \<and> (\<not> ok 0 \<longrightarrow> smooth_box buf W H passes ok = Inr buf)
   \<and> box_blur grid W H rad p None = Inr grid
   \<and> ((\<not> qx \<or> \<not> qy) \<and> length wbuf = nat (W * H) \<longrightarrow>
        flood_from_edges_or_seed h W H level from_edge seed_set sx sy qx qy wbuf
          = Inr (replicate (nat (W * H)) 0))"
proof -
  have c1: "geo_main cfg env = Inr r \<and> (\<not> ds_ok env \<or> \<not> map_ok env \<or> (WATER_ENABLE cfg \<and> \<not> water_ok env))
      \<longrightarrow> status r = 1 \<and> diagnostics r \<noteq> [] \<and> printed r = []"
    by (auto simp: geo_main_def thenf_eq_Inr split: if_splits)
  have c2: "geo_main cfg' env' = Inr r' \<and> ds_ok env' \<and> map_ok env' \<and> (WATER_ENABLE cfg' \<longrightarrow> water_ok env')
      \<longrightarrow> status r' = 0 \<and> diagnostics r' = []"
    by (auto simp: geo_main_def thenf_eq_Inr split: if_splits)
  have c3: "\<not> ok 0 \<longrightarrow> smooth_box buf W H passes ok = Inr buf"
  proof
    assume a: "\<not> ok 0"
    show "smooth_box buf W H passes ok = Inr buf"
    proof (cases "passes \<le> 0")
      case True
      then show ?thesis by (simp add: smooth_box_def)
    next
      case False
      then have "[0..<nat passes] = 0 # [1..<nat passes]" by (simp add: upt_conv_Cons)
      then show ?thesis using a False by (simp add: smooth_box_def)
    qed
  qed
  have c4: "box_blur grid W H rad p None = Inr grid" by (simp add: box_blur_def)
  have c5: "(\<not> qx \<or> \<not> qy) \<and> length wbuf = nat (W * H) \<longrightarrow>
        flood_from_edges_or_seed h W H level from_edge seed_set sx sy qx qy wbuf
          = Inr (replicate (nat (W * H)) 0)"
    by (auto simp: flood_from_edges_or_seed_def zero_loop_replicate)
  from c1 c2 c3 c4 c5 show ?thesis by blast
qed

theorem alloc_failure_handling_witness:
  "(geo_main (geo_cfg 2 2 1) (env_ok\<lparr>ds_ok := False\<rparr>)
        = Inr \<lparr>status = 1, diagnostics = [''Alloc DS/map impossible.''], printed = []\<rparr>
      \<and> \<not> ds_ok (env_ok\<lparr>ds_ok := False\<rparr>)
      \<and> status \<lparr>status = 1, diagnostics = [''Alloc DS/map impossible.''], printed = []\<rparr> = 1
      \<and> diagnostics \<lparr>status = 1, diagnostics = [''Alloc DS/map impossible.''], printed = []\<rparr> \<noteq> [])
   \<and> (geo_main (geo_cfg 2 2 1) (env_ok\<lparr>tmp_ok := (\<lambda>_. False)\<rparr>)
        = Inr \<lparr>status = 0, diagnostics = [],
               printed = [10072449 / 16777216, 2348859 / 4194304, 13153115 / 16777216,
                          8169599 / 8388608]\<rparr>
      \<and> ds_ok (env_ok\<lparr>tmp_ok := (\<lambda>_. False)\<rparr>) \<and> map_ok (env_ok\<lparr>tmp_ok := (\<lambda>_. False)\<rparr>)
      \<and> \<not> WATER_ENABLE (geo_cfg 2 2 1)
      \<and> status \<lparr>status = 0, diagnostics = [],
               printed = [10072449 / 16777216, 2348859 / 4194304, 13153115 / 16777216,
                          8169599 / 8388608]\<rparr> = 0)
   \<and> (\<not> (\<lambda>_ :: nat. False) 0 \<and> smooth_box [1, 2, 3, 4] 2 2 1 (\<lambda>_. False) = Inr [1, 2, 3, 4])
   \<and> box_blur [1, 2, 3, 4] 2 2 1 1 None = Inr [1, 2, 3, 4]
   \<and> (length [7, 7, 7, 7 :: byte] = nat (2 * 2)
      \<and> flood_from_edges_or_seed [0, 0, 0, 0] 2 2 (1 / 2) True False 0 0 False True [7, 7, 7, 7]
          = Inr (replicate (nat (2 * 2)) 0))"
  using alloc_failure_handling [where cfg = "geo_cfg 2 2 1" and env = "env_ok\<lparr>ds_ok := False\<rparr>"
      and r = "\<lparr>status = 1, diagnostics = [''Alloc DS/map impossible.''], printed = []\<rparr>"
      and cfg' = "geo_cfg 2 2 1" and env' = "env_ok\<lparr>tmp_ok := (\<lambda>_. False)\<rparr>"
      and r' = "\<lparr>status = 0, diagnostics = [],
               printed = [10072449 / 16777216, 2348859 / 4194304, 13153115 / 16777216,
                          8169599 / 8388608]\<rparr>"
      and ok = "\<lambda>_. False" and buf = "[1, 2, 3, 4]" and W = 2 and H = 2 and passes = 1
      and grid = "[1, 2, 3, 4]" and rad = 1 and p = 1 and qx = False and qy = True
      and wbuf = "[7, 7, 7, 7]" and h = "[0, 0, 0, 0]" and level = "1 / 2" and from_edge = True
      and seed_set = False and sx = 0 and sy = 0]
    geo_run_ds_alloc_fails geo_run_smoother_alloc_fails
  by (simp add: geo_cfg_def env_ok_def)

section \<open>The unit interval through the pipeline\<close>

text \<open>
  The synthesis of \<^verbatim>\<open>geo.c\<close> never faults on a grid of side \<open>2 ^ n + 1\<close> and leaves every
  cell in \<open>[0, 1]\<close>, whatever the buffer held before: each level writes every cell whose
  coordinates are multiples of \<^verbatim>\<open>half\<close> and were not written by an earlier level, and
  every value written is a sample of \<^verbatim>\<open>rng_rand01\<close> or a result of \<^verbatim>\<open>clamp01d\<close>.
\<close>

definition unit_iv :: "real \<Rightarrow> bool" where
  "unit_iv v \<longleftrightarrow> 0 \<le> v \<and> v \<le> 1"

definition writes_unit :: "(ds_state \<Rightarrow> fault + ds_state) \<Rightarrow> ds_state \<Rightarrow> nat \<Rightarrow> bool" where
  "writes_unit f s t \<longleftrightarrow>
     (\<exists>v st. f s = Inr \<lparr>ds_buf = (ds_buf s)[t := v], rng_state = st\<rparr> \<and> unit_iv v)"

lemma rng_rand01_unit: "unit_iv (fst (rng_rand01 st))"
proof -
  define n where "n = unat (rng_nextu st AND 0xFFFFFF)"
  have "unat (rng_nextu st AND 0xFFFFFF) \<le> unat (0xFFFFFF :: ulong)"
    by (rule word_and_le1 [THEN word_le_nat_alt [THEN iffD1]])
  then have n: "n \<le> 16777215" by (simp add: n_def)
  have "fst (rng_rand01 st) = real n / real 0x1000000"
    unfolding rng_rand01_def Let_def n_def by (simp only: fst_conv)
  moreover have "0 \<le> real n / real 0x1000000" by simp
  moreover have "real n / real 0x1000000 \<le> 1" using n by simp
  ultimately show ?thesis by (simp only: unit_iv_def)
qed

lemma clamp01d_unit: "unit_iv (clamp01d v)"
  by (simp add: clamp01d_def unit_iv_def)

lemma store_rand01_ok:
  assumes "0 \<le> i" "i < int (length (ds_buf s))"
  shows "writes_unit (store_rand01 i) s (nat i)"
proof -
  obtain r st where r: "rng_rand01 (rng_state s) = (r, st)" by (cases "rng_rand01 (rng_state s)")
  have "unit_iv r" using rng_rand01_unit [of "rng_state s"] r by simp
  moreover have "store_rand01 i s = Inr \<lparr>ds_buf = (ds_buf s)[nat i := r], rng_state = st\<rparr>"
    using assms r by (simp add: store_rand01_def wr_def)
  ultimately show ?thesis unfolding writes_unit_def by blast
qed

lemma store_displaced_ok:
  assumes "0 \<le> i" "i < int (length (ds_buf s))"
  shows "writes_unit (store_displaced i avg scale) s (nat i)"
proof -
  obtain r st where r: "rng_randm1p1 (rng_state s) = (r, st)" by (cases "rng_randm1p1 (rng_state s)")
  have "store_displaced i avg scale s =
          Inr \<lparr>ds_buf = (ds_buf s)[nat i := clamp01d (avg + r * scale)], rng_state = st\<rparr>"
    using assms r by (simp add: store_displaced_def wr_def)
  then show ?thesis unfolding writes_unit_def using clamp01d_unit by blast
qed

lemma rd_cell:
  assumes "length b = nat (P * P)" "0 \<le> y" "y < P" "0 \<le> x" "x < P"
  shows "rd b (y * P + x) = Inr (b ! nat (y * P + x))"
proof -
  have "0 \<le> P * P" using assms(2,3) by simp
  then have "int (length b) = P * P" using assms(1) by simp
  then show ?thesis using cell_index_range [OF assms(2-5)] by (intro rd_in_range) auto
qed

lemma cell_in_buf:
  assumes "length b = nat (P * P)" "0 \<le> y" "y < P" "0 \<le> x" "x < P"
  shows "0 \<le> y * P + x" "y * P + x < int (length b)"
proof -
  have "0 \<le> P * P" using assms(2,3) by simp
  then have "int (length b) = P * P" using assms(1) by simp
  then show "0 \<le> y * P + x" "y * P + x < int (length b)"
    using cell_index_range [OF assms(2-5)] by auto
qed

lemma diamond_cell_ok:
  assumes "length (ds_buf s) = nat (P * P)" "0 \<le> half" "half \<le> y" "y < P" "half \<le> x" "x < P"
  shows "writes_unit (diamond_cell P half step scale y x) s (nat (y * P + x))"
proof -
  have y: "0 \<le> y - half" "y - half < P" "0 \<le> y" and x: "0 \<le> x - half" "x - half < P" "0 \<le> x"
    using assms by auto
  note r = rd_cell [OF assms(1)]
  have i: "x + half - step + step - half = x" "y + half - step + step - half = y" by auto
  have "diamond_cell P half step scale y x s =
        store_displaced (y * P + x)
          ((ds_buf s ! nat ((y - half) * P + (x - half)) + ds_buf s ! nat ((y - half) * P + x)
            + ds_buf s ! nat (y * P + (x - half)) + ds_buf s ! nat (y * P + x)) * (1 / 4)) scale s"
    unfolding diamond_cell_def i Let_def
    by (simp only: r [OF y(1,2) x(1,2)] r [OF y(1,2) x(3) assms(6)] r [OF y(3) assms(4) x(1,2)]
        r [OF y(3) assms(4) x(3) assms(6)] thenf_Inr)
  moreover have "writes_unit (store_displaced (y * P + x)
          ((ds_buf s ! nat ((y - half) * P + (x - half)) + ds_buf s ! nat ((y - half) * P + x)
            + ds_buf s ! nat (y * P + (x - half)) + ds_buf s ! nat (y * P + x)) * (1 / 4)) scale)
        s (nat (y * P + x))"
    by (rule store_displaced_ok) (rule cell_in_buf [OF assms(1) y(3) assms(4) x(3) assms(6)])+
  ultimately show ?thesis by (simp add: writes_unit_def)
qed

lemma add_cell_ok:
  assumes "c \<Longrightarrow> 0 \<le> i \<and> i < int (length b)"
  shows "\<exists>sum. add_cell b c i acc = Inr (sum, snd acc + (if c then 1 else 0))"
  using assms by (cases acc) (auto simp: add_cell_def rd_def)

lemma square_cell_ok:
  assumes "length (ds_buf s) = nat (P * P)" "0 < half" "2 * half \<le> P - 1"
    "0 \<le> y" "y < P" "0 \<le> x" "x < P"
  shows "writes_unit (square_cell P half scale y x) s (nat (y * P + x))"
proof -
  note c = cell_in_buf [OF assms(1)]
  have c1: "x - half \<ge> 0 \<Longrightarrow> 0 \<le> y * P + (x - half) \<and> y * P + (x - half) < int (length (ds_buf s))"
    using c [of y "x - half"] assms by auto
  have c2: "x + half < P \<Longrightarrow> 0 \<le> y * P + (x + half) \<and> y * P + (x + half) < int (length (ds_buf s))"
    using c [of y "x + half"] assms by auto
  have c3: "y - half \<ge> 0 \<Longrightarrow> 0 \<le> (y - half) * P + x \<and> (y - half) * P + x < int (length (ds_buf s))"
    using c [of "y - half" x] assms by auto
  have c4: "y + half < P \<Longrightarrow> 0 \<le> (y + half) * P + x \<and> (y + half) * P + x < int (length (ds_buf s))"
    using c [of "y + half" x] assms by auto
  from add_cell_ok [of "x - half \<ge> 0" "y * P + (x - half)" "ds_buf s" "(0, 0)", OF c1]
  obtain s1 where a1: "add_cell (ds_buf s) (x - half \<ge> 0) (y * P + (x - half)) (0, 0)
      = Inr (s1, (if x - half \<ge> 0 then 1 else 0))" by auto
  from add_cell_ok [of "x + half < P" "y * P + (x + half)" "ds_buf s"
      "(s1, (if x - half \<ge> 0 then 1 else 0))", OF c2]
  obtain s2 where a2: "add_cell (ds_buf s) (x + half < P) (y * P + (x + half))
      (s1, (if x - half \<ge> 0 then 1 else 0))
      = Inr (s2, (if x - half \<ge> 0 then 1 else 0) + (if x + half < P then 1 else 0))" by auto
  define n2 :: int where "n2 = (if x - half \<ge> 0 then 1 else 0) + (if x + half < P then 1 else 0)"
  have n2: "1 \<le> n2" using assms(2,3,6,7) by (auto simp: n2_def)
  from add_cell_ok [of "y - half \<ge> 0" "(y - half) * P + x" "ds_buf s" "(s2, n2)", OF c3]
  obtain s3 where a3: "add_cell (ds_buf s) (y - half \<ge> 0) ((y - half) * P + x) (s2, n2)
      = Inr (s3, n2 + (if y - half \<ge> 0 then 1 else 0))" by auto
  from add_cell_ok [of "y + half < P" "(y + half) * P + x" "ds_buf s"
      "(s3, n2 + (if y - half \<ge> 0 then 1 else 0))", OF c4]
  obtain s4 where a4: "add_cell (ds_buf s) (y + half < P) ((y + half) * P + x)
      (s3, n2 + (if y - half \<ge> 0 then 1 else 0))
      = Inr (s4, n2 + (if y - half \<ge> 0 then 1 else 0) + (if y + half < P then 1 else 0))" by auto
  define cnt where "cnt = n2 + (if y - half \<ge> 0 then 1 else 0) + (if y + half < P then 1 else 0)"
  have cnt: "cnt > 0" using n2 by (auto simp: cnt_def)
  have "square_cell P half scale y x s = store_displaced (y * P + x) (s4 / real_of_int cnt) scale s"
    unfolding square_cell_def a1 thenf_Inr a2 [unfolded n2_def [symmetric]] a3
      a4 [unfolded cnt_def [symmetric]]
    using cnt by (simp add: Let_def)
  moreover have "writes_unit (store_displaced (y * P + x) (s4 / real_of_int cnt) scale) s (nat (y * P + x))"
    by (rule store_displaced_ok) (rule c [OF assms(4-7)])+
  ultimately show ?thesis by (simp add: writes_unit_def)
qed

lemma for_each_map: "for_each (map f xs) body s = for_each xs (\<lambda>x. body (f x)) s"
  by (induction xs arbitrary: s) (auto simp: thenf_def split: sum.splits)

lemma for_each_nested:
  "for_each ys (\<lambda>y. for_each (xs y) (body y)) s =
   for_each (concat (map (\<lambda>y. map (Pair y) (xs y)) ys)) (\<lambda>(y, x). body y x) s"
proof (induction ys arbitrary: s)
  case Nil
  show ?case by simp
next
  case (Cons y ys)
  show ?case
    by (cases "for_each (xs y) (body y) s") (simp_all add: for_each_append for_each_map Cons.IH)
qed

lemma for_each_cells:
  assumes "\<And>i s. i \<in> set xs \<Longrightarrow> length (ds_buf s) = N \<Longrightarrow> writes_unit (body i) s (t i)"
    and "length (ds_buf s) = N"
  shows "\<exists>s'. for_each xs body s = Inr s' \<and> length (ds_buf s') = N \<and>
           (\<forall>j<N. (j \<in> t ` set xs \<or> unit_iv (ds_buf s ! j)) \<longrightarrow> unit_iv (ds_buf s' ! j))"
  using assms
proof (induction xs arbitrary: s)
  case Nil
  then show ?case by simp
next
  case (Cons x xs)
  from Cons.prems(1) [of x s] Cons.prems(2)
  obtain v st where s1: "body x s = Inr \<lparr>ds_buf = (ds_buf s)[t x := v], rng_state = st\<rparr>" "unit_iv v"
    by (auto simp: writes_unit_def)
  define s1 where "s1 = \<lparr>ds_buf = (ds_buf s)[t x := v], rng_state = st\<rparr>"
  have l1: "length (ds_buf s1) = N" using Cons.prems(2) by (simp add: s1_def)
  have "\<exists>s'. for_each xs body s1 = Inr s' \<and> length (ds_buf s') = N \<and>
           (\<forall>j<N. (j \<in> t ` set xs \<or> unit_iv (ds_buf s1 ! j)) \<longrightarrow> unit_iv (ds_buf s' ! j))"
    by (rule Cons.IH [OF _ l1]) (rule Cons.prems(1), auto)
  then obtain s' where s': "for_each xs body s1 = Inr s'" "length (ds_buf s') = N"
    "\<forall>j<N. (j \<in> t ` set xs \<or> unit_iv (ds_buf s1 ! j)) \<longrightarrow> unit_iv (ds_buf s' ! j)"
    by blast
  have "for_each (x # xs) body s = Inr s'" using s1(1) s'(1) by (simp add: s1_def)
  moreover have "\<forall>j<N. (j \<in> t ` set (x # xs) \<or> unit_iv (ds_buf s ! j)) \<longrightarrow> unit_iv (ds_buf s' ! j)"
  proof (intro allI impI)
    fix j assume j: "j < N" and h: "j \<in> t ` set (x # xs) \<or> unit_iv (ds_buf s ! j)"
    have "j \<in> t ` set xs \<or> unit_iv (ds_buf s1 ! j)"
    proof (cases "j = t x")
      case True
      then show ?thesis using j Cons.prems(2) s1(2) by (simp add: s1_def)
    next
      case False
      then show ?thesis using h by (auto simp: s1_def)
    qed
    then show "unit_iv (ds_buf s' ! j)" using s'(3) j by blast
  qed
  ultimately show ?case using s'(2) by blast
qed

lemma set_strided:
  "0 < st \<Longrightarrow> set (strided a n st) = {i. a \<le> i \<and> i < n \<and> (i - a) mod st = 0}"
proof (induction a n st rule: strided.induct)
  case (1 i n st)
  show ?case
  proof (cases "i < n")
    case False
    then show ?thesis by (subst strided.simps) auto
  next
    case True
    have IH: "set (strided (i + st) n st) = {j. i + st \<le> j \<and> j < n \<and> (j - (i + st)) mod st = 0}"
      using "1.IH" True "1.prems" by simp
    have a: "(j - (i + st)) mod st = (j - i) mod st" for j
      by (metis diff_diff_eq mod_diff_right_eq mod_self diff_zero)
    have b: "i + st \<le> j" if "i \<le> j" "j \<noteq> i" "(j - i) mod st = 0" for j
    proof -
      from that(3) obtain k where k: "j - i = st * k" by (auto simp: mod_eq_0_iff_dvd)
      have "0 < j - i" using that(1,2) by simp
      then have "0 < k" using k "1.prems" by (simp add: zero_less_mult_iff)
      then have "st * 1 \<le> st * k" using "1.prems" by (intro mult_left_mono) auto
      then show ?thesis using k by simp
    qed
    have "set (strided i n st) = insert i (set (strided (i + st) n st))"
      using True "1.prems" by (subst strided.simps) simp
    also have "\<dots> = {j. i \<le> j \<and> j < n \<and> (j - i) mod st = 0}"
      unfolding IH a using True "1.prems" b by auto
    finally show ?thesis .
  qed
qed

lemma mem_pairs:
  "(y, x) \<in> set (concat (map (\<lambda>y. map (Pair y) (xs y)) ys)) \<longleftrightarrow> y \<in> set ys \<and> x \<in> set (xs y)"
  by auto

lemma diamond_pass_ok:
  assumes "length (ds_buf s) = nat (P * P)" "0 < half" "0 < step"
  shows "\<exists>s'. diamond_pass P half step scale s = Inr s' \<and> length (ds_buf s') = nat (P * P) \<and>
     (\<forall>y x. 0 \<le> y \<and> y < P \<and> 0 \<le> x \<and> x < P \<and>
        ((half \<le> y \<and> (y - half) mod step = 0 \<and> half \<le> x \<and> (x - half) mod step = 0)
          \<or> unit_iv (ds_buf s ! nat (y * P + x)))
        \<longrightarrow> unit_iv (ds_buf s' ! nat (y * P + x)))"
proof -
  let ?ys = "strided half P step"
  let ?xs = "concat (map (\<lambda>y. map (Pair y) ?ys) ?ys)"
  let ?body = "\<lambda>(y, x). diamond_cell P half step scale y x"
  let ?t = "\<lambda>(y, x). nat (y * P + x)"
  have eq: "diamond_pass P half step scale s = for_each ?xs ?body s"
    unfolding diamond_pass_def by (rule for_each_nested)
  have cells: "writes_unit (?body i) s (?t i)" if "i \<in> set ?xs" "length (ds_buf s) = nat (P * P)" for i s
  proof -
    obtain y x where i: "i = (y, x)" by (cases i)
    from that(1) have "y \<in> set ?ys" "x \<in> set ?ys" unfolding i mem_pairs by auto
    then have "half \<le> y" "y < P" "half \<le> x" "x < P" using set_strided [OF assms(3)] by auto
    then show ?thesis unfolding i using diamond_cell_ok [OF that(2)] assms(2) by simp
  qed
  from for_each_cells [of ?xs "nat (P * P)" ?body ?t, OF cells assms(1)]
  obtain s' where s': "for_each ?xs ?body s = Inr s'" "length (ds_buf s') = nat (P * P)"
    "\<forall>j<nat (P * P). (j \<in> ?t ` set ?xs \<or> unit_iv (ds_buf s ! j)) \<longrightarrow> unit_iv (ds_buf s' ! j)"
    by blast
  have "unit_iv (ds_buf s' ! nat (y * P + x))"
    if h: "0 \<le> y \<and> y < P \<and> 0 \<le> x \<and> x < P \<and>
        ((half \<le> y \<and> (y - half) mod step = 0 \<and> half \<le> x \<and> (x - half) mod step = 0)
          \<or> unit_iv (ds_buf s ! nat (y * P + x)))" for y x
  proof -
    have j: "nat (y * P + x) < nat (P * P)" using cell_index_range [of y P x] h by auto
    have "nat (y * P + x) \<in> ?t ` set ?xs \<or> unit_iv (ds_buf s ! nat (y * P + x))"
    proof (cases "half \<le> y \<and> (y - half) mod step = 0 \<and> half \<le> x \<and> (x - half) mod step = 0")
      case True
      then have "y \<in> set ?ys" "x \<in> set ?ys" using h set_strided [OF assms(3)] by auto
      then have "(y, x) \<in> set ?xs" unfolding mem_pairs by simp
      then have "?t (y, x) \<in> ?t ` set ?xs" by (rule imageI)
      then show ?thesis by simp
    next
      case False
      then show ?thesis using h by blast
    qed
    then show ?thesis using s'(3) j by blast
  qed
  then show ?thesis using eq s'(1,2) by auto
qed

lemma square_pass_ok:
  assumes "length (ds_buf s) = nat (P * P)" "0 < half" "step = 2 * half" "step \<le> P - 1"
  shows "\<exists>s'. square_pass P half step scale s = Inr s' \<and> length (ds_buf s') = nat (P * P) \<and>
     (\<forall>y x. 0 \<le> y \<and> y < P \<and> 0 \<le> x \<and> x < P \<and>
        ((y mod half = 0 \<and> (if (y div half) mod 2 = 0 then half else 0) \<le> x
            \<and> (x - (if (y div half) mod 2 = 0 then half else 0)) mod step = 0)
          \<or> unit_iv (ds_buf s ! nat (y * P + x)))
        \<longrightarrow> unit_iv (ds_buf s' ! nat (y * P + x)))"
proof -
  have step: "0 < step" using assms(2,3) by simp
  let ?ys = "strided 0 P half"
  let ?row = "\<lambda>y. strided (if (y div half) mod 2 = 0 then half else 0) P step"
  let ?xs = "concat (map (\<lambda>y. map (Pair y) (?row y)) ?ys)"
  let ?body = "\<lambda>(y, x). square_cell P half scale y x"
  let ?t = "\<lambda>(y, x). nat (y * P + x)"
  have eq: "square_pass P half step scale s = for_each ?xs ?body s"
    unfolding square_pass_def Let_def by (rule for_each_nested)
  have cells: "writes_unit (?body i) s (?t i)" if "i \<in> set ?xs" "length (ds_buf s) = nat (P * P)" for i s
  proof -
    obtain y x where i: "i = (y, x)" by (cases i)
    from that(1) have yx: "y \<in> set ?ys" "x \<in> set (?row y)" unfolding i mem_pairs by auto
    have "0 \<le> y" "y < P" using yx(1) set_strided [OF assms(2)] by auto
    moreover have "0 \<le> x" "x < P" using yx(2) set_strided [OF step] assms(2) by (auto split: if_splits)
    ultimately show ?thesis unfolding i
      using square_cell_ok [OF that(2) assms(2), of y x scale] assms(3,4) by simp
  qed
  from for_each_cells [of ?xs "nat (P * P)" ?body ?t, OF cells assms(1)]
  obtain s' where s': "for_each ?xs ?body s = Inr s'" "length (ds_buf s') = nat (P * P)"
    "\<forall>j<nat (P * P). (j \<in> ?t ` set ?xs \<or> unit_iv (ds_buf s ! j)) \<longrightarrow> unit_iv (ds_buf s' ! j)"
    by blast
  have "unit_iv (ds_buf s' ! nat (y * P + x))"
    if h: "0 \<le> y \<and> y < P \<and> 0 \<le> x \<and> x < P \<and>
        ((y mod half = 0 \<and> (if (y div half) mod 2 = 0 then half else 0) \<le> x
            \<and> (x - (if (y div half) mod 2 = 0 then half else 0)) mod step = 0)
          \<or> unit_iv (ds_buf s ! nat (y * P + x)))" for y x
  proof -
    have j: "nat (y * P + x) < nat (P * P)" using cell_index_range [of y P x] h by auto
    have "nat (y * P + x) \<in> ?t ` set ?xs \<or> unit_iv (ds_buf s ! nat (y * P + x))"
    proof (cases "y mod half = 0 \<and> (if (y div half) mod 2 = 0 then half else 0) \<le> x
            \<and> (x - (if (y div half) mod 2 = 0 then half else 0)) mod step = 0")
      case True
      have "y \<in> set ?ys" using True h set_strided [OF assms(2), of 0 P] by simp
      moreover have "x \<in> set (?row y)"
        using True h set_strided [OF step, of "if (y div half) mod 2 = 0 then half else 0" P] by simp
      ultimately have "(y, x) \<in> set ?xs" unfolding mem_pairs by simp
      then have "?t (y, x) \<in> ?t ` set ?xs" by (rule imageI)
      then show ?thesis by simp
    next
      case False
      then show ?thesis using h by blast
    qed
    then show ?thesis using s'(3) j by blast
  qed
  then show ?thesis using eq s'(1,2) by auto
qed

definition level_ok :: "int \<Rightarrow> int \<Rightarrow> ds_state \<Rightarrow> bool" where
  "level_ok P st s \<longleftrightarrow>
     length (ds_buf s) = nat (P * P) \<and>
     (\<forall>y x. 0 \<le> y \<and> y < P \<and> 0 \<le> x \<and> x < P \<and> y mod st = 0 \<and> x mod st = 0
        \<longrightarrow> unit_iv (ds_buf s ! nat (y * P + x)))"

lemma half_multiple_cases:
  fixes y half :: int
  assumes "0 < half" "0 \<le> y" "y mod half = 0"
  shows "(y mod (2 * half) = 0 \<and> (y div half) mod 2 = 0)
       \<or> (half \<le> y \<and> (y - half) mod (2 * half) = 0 \<and> (y div half) mod 2 = 1)"
proof -
  obtain a where a: "y = half * a" using assms(3) by (auto simp: mod_eq_0_iff_dvd)
  have a0: "0 \<le> a" using a assms(1,2) by (simp add: zero_le_mult_iff)
  have d: "y div half = a" using a assms(1) by simp
  define b where "b = a div 2"
  show ?thesis
  proof (cases "a mod 2 = 0")
    case True
    then have "a = 2 * b" unfolding b_def by presburger
    then have "y = (2 * half) * b" using a by simp
    then have "y mod (2 * half) = 0" by simp
    then show ?thesis using True d by simp
  next
    case False
    then have o: "a mod 2 = 1" by presburger
    then have ab: "a = 2 * b + 1" unfolding b_def by presburger
    have "y - half = (2 * half) * b" unfolding a ab by (simp add: algebra_simps)
    then have m: "(y - half) mod (2 * half) = 0" by simp
    have "1 \<le> a" using a0 o by presburger
    then have "half * 1 \<le> half * a" using assms(1) by (intro mult_left_mono) auto
    then have "half \<le> y" using a by simp
    then show ?thesis using m o d by simp
  qed
qed

lemma level_step:
  assumes "0 < half" "2 * half \<le> P - 1" "level_ok P (2 * half) s"
  shows "\<exists>s1 s2. diamond_pass P half (2 * half) scale s = Inr s1
           \<and> square_pass P half (2 * half) scale s1 = Inr s2 \<and> level_ok P half s2"
proof -
  have len: "length (ds_buf s) = nat (P * P)" using assms(3) by (simp add: level_ok_def)
  have st: "0 < 2 * half" using assms(1) by simp
  from diamond_pass_ok [OF len assms(1) st, of scale]
  obtain s1 where s1: "diamond_pass P half (2 * half) scale s = Inr s1"
    "length (ds_buf s1) = nat (P * P)"
    "\<And>y x. 0 \<le> y \<and> y < P \<and> 0 \<le> x \<and> x < P \<and>
        ((half \<le> y \<and> (y - half) mod (2 * half) = 0 \<and> half \<le> x \<and> (x - half) mod (2 * half) = 0)
          \<or> unit_iv (ds_buf s ! nat (y * P + x)))
        \<Longrightarrow> unit_iv (ds_buf s1 ! nat (y * P + x))"
    by blast
  from square_pass_ok [OF s1(2) assms(1) refl assms(2), of scale]
  obtain s2 where s2: "square_pass P half (2 * half) scale s1 = Inr s2"
    "length (ds_buf s2) = nat (P * P)"
    "\<And>y x. 0 \<le> y \<and> y < P \<and> 0 \<le> x \<and> x < P \<and>
        ((y mod half = 0 \<and> (if (y div half) mod 2 = 0 then half else 0) \<le> x
            \<and> (x - (if (y div half) mod 2 = 0 then half else 0)) mod (2 * half) = 0)
          \<or> unit_iv (ds_buf s1 ! nat (y * P + x)))
        \<Longrightarrow> unit_iv (ds_buf s2 ! nat (y * P + x))"
    by blast
  have "unit_iv (ds_buf s2 ! nat (y * P + x))"
    if h: "0 \<le> y \<and> y < P \<and> 0 \<le> x \<and> x < P \<and> y mod half = 0 \<and> x mod half = 0" for y x
  proof -
    from h have r: "0 \<le> y" "y < P" "0 \<le> x" "x < P" "y mod half = 0" "x mod half = 0" by auto
    note cy = half_multiple_cases [OF assms(1) r(1) r(5)]
    note cx = half_multiple_cases [OF assms(1) r(3) r(6)]
    consider (ee) "y mod (2 * half) = 0" "x mod (2 * half) = 0"
      | (oo) "half \<le> y" "(y - half) mod (2 * half) = 0" "half \<le> x" "(x - half) mod (2 * half) = 0"
      | (eo) "(y div half) mod 2 = 0" "half \<le> x" "(x - half) mod (2 * half) = 0"
      | (oe) "(y div half) mod 2 = 1" "x mod (2 * half) = 0"
      using cy cx by blast
    then show ?thesis
    proof cases
      case ee
      then have "unit_iv (ds_buf s ! nat (y * P + x))"
        using assms(3) r(1-4) by (simp add: level_ok_def)
      then have "unit_iv (ds_buf s1 ! nat (y * P + x))" using s1(3) [of y x] r(1-4) by simp
      then show ?thesis using s2(3) [of y x] r(1-4) by simp
    next
      case oo
      then have "unit_iv (ds_buf s1 ! nat (y * P + x))" using s1(3) [of y x] r(1-4) by simp
      then show ?thesis using s2(3) [of y x] r(1-4) by simp
    next
      case eo
      then show ?thesis using s2(3) [of y x] r(1-5) by simp
    next
      case oe
      then show ?thesis using s2(3) [of y x] r(1-5) by simp
    qed
  qed
  then have "level_ok P half s2" using s2(2) by (simp add: level_ok_def)
  with s1(1) s2(1) show ?thesis by blast
qed

lemma ds_levels_ok:
  "level_ok P (2 ^ k) s \<Longrightarrow> 2 ^ k \<le> P - 1 \<Longrightarrow>
   \<exists>s'. ds_levels amp0 rough P (2 ^ k) s = Inr s' \<and> level_ok P 1 s'"
proof (induction k arbitrary: s)
  case 0
  have "ds_levels amp0 rough P 1 s = Inr s" by (subst ds_levels.simps) simp
  then show ?case using "0.prems"(1) by simp
next
  case (Suc k)
  have h: "(0::int) < 2 ^ k" by simp
  have st: "(2::int) ^ Suc k = 2 * 2 ^ k" by simp
  have d: "(2 * 2 ^ k) div 2 = (2::int) ^ k" by simp
  have g: "(1::int) < 2 * 2 ^ k" using h by linarith
  from level_step [OF h, of P s "ds_scale amp0 rough P (2 * 2 ^ k)"] Suc.prems
  obtain s1 s2 where s12: "diamond_pass P (2 ^ k) (2 * 2 ^ k) (ds_scale amp0 rough P (2 * 2 ^ k)) s = Inr s1"
    "square_pass P (2 ^ k) (2 * 2 ^ k) (ds_scale amp0 rough P (2 * 2 ^ k)) s1 = Inr s2"
    "level_ok P (2 ^ k) s2"
    unfolding st by blast
  have le: "(2::int) ^ k \<le> P - 1" using Suc.prems(2) h unfolding st by linarith
  from Suc.IH [OF s12(3) le] obtain s' where s': "ds_levels amp0 rough P (2 ^ k) s2 = Inr s'"
    "level_ok P 1 s'" by blast
  have "ds_levels amp0 rough P (2 * 2 ^ k) s = Inr s'"
    by (subst ds_levels.simps) (simp add: g d Let_def s12(1,2) s'(1))
  then show ?case using s'(2) unfolding st by blast
qed

lemma multiple_of_side:
  fixes y P :: int
  assumes "2 \<le> P" "0 \<le> y" "y < P" "y mod (P - 1) = 0"
  shows "y = 0 \<or> y = P - 1"
proof -
  obtain a where a: "y = (P - 1) * a" using assms(4) by (auto simp: mod_eq_0_iff_dvd)
  have a0: "0 \<le> a" using a assms(1,2) by (simp add: zero_le_mult_iff)
  have "a < 2"
  proof (rule ccontr)
    assume "\<not> a < 2"
    then have "(P - 1) * 2 \<le> (P - 1) * a" using assms(1) by (intro mult_left_mono) auto
    then show False using a assms(1,3) by simp
  qed
  then have "a = 0 \<or> a = 1" using a0 by auto
  then show ?thesis using a by auto
qed

lemma ds_generate_ok:
  assumes "P = 2 ^ n + 1" "length (ds_buf s) = nat (P * P)"
  shows "\<exists>s'. ds_generate amp0 rough P s = Inr s' \<and> length (ds_buf s') = nat (P * P)
           \<and> (\<forall>v \<in> set (ds_buf s'). unit_iv v)"
proof -
  have P2: "2 \<le> P" using assms(1) by simp
  let ?cs = "[0, P - 1, (P - 1) * P, (P - 1) * P + (P - 1)]"
  have eq: "ds_generate amp0 rough P s =
      thenf (for_each ?cs store_rand01 s) (ds_levels amp0 rough P (P - 1))"
    by (simp add: ds_generate_def thenf_def split: sum.splits)
  have corner: "writes_unit (store_rand01 i) s (nat i)"
    if "i \<in> set ?cs" "length (ds_buf s) = nat (P * P)" for i s
  proof -
    have c: "0 \<le> y * P + x \<and> y * P + x < int (length (ds_buf s))"
      if "0 \<le> y" "y < P" "0 \<le> x" "x < P" for y x
      using cell_in_buf [OF \<open>length (ds_buf s) = nat (P * P)\<close> that] by simp
    have "0 \<le> i \<and> i < int (length (ds_buf s))"
      using that(1) c [of 0 0] c [of 0 "P - 1"] c [of "P - 1" 0] c [of "P - 1" "P - 1"] P2
      by auto
    then show ?thesis by (intro store_rand01_ok) auto
  qed
  from for_each_cells [of ?cs "nat (P * P)" store_rand01 nat, OF corner assms(2)]
  obtain s0 where s0: "for_each ?cs store_rand01 s = Inr s0" "length (ds_buf s0) = nat (P * P)"
    "\<forall>j<nat (P * P). (j \<in> nat ` set ?cs \<or> unit_iv (ds_buf s ! j)) \<longrightarrow> unit_iv (ds_buf s0 ! j)"
    by blast
  have "unit_iv (ds_buf s0 ! nat (y * P + x))"
    if h: "0 \<le> y \<and> y < P \<and> 0 \<le> x \<and> x < P \<and> y mod (P - 1) = 0 \<and> x mod (P - 1) = 0" for y x
  proof -
    have j: "nat (y * P + x) < nat (P * P)" using cell_index_range [of y P x] h by auto
    have "y = 0 \<or> y = P - 1" "x = 0 \<or> x = P - 1" using multiple_of_side [OF P2] h by auto
    then have "y * P + x \<in> set ?cs" by auto
    then have "nat (y * P + x) \<in> nat ` set ?cs" by (rule imageI)
    then show ?thesis using s0(3) j by blast
  qed
  then have l0: "level_ok P (2 ^ n) s0" using s0(2) assms(1) by (simp add: level_ok_def)
  have "(2::int) ^ n \<le> P - 1" using assms(1) by simp
  from ds_levels_ok [OF l0 this, of amp0 rough]
  obtain s' where s': "ds_levels amp0 rough P (2 ^ n) s0 = Inr s'" "level_ok P 1 s'" by blast
  have P1: "P - 1 = 2 ^ n" using assms(1) by simp
  have "ds_generate amp0 rough P s = ds_levels amp0 rough P (P - 1) s0"
    by (simp only: eq s0(1) thenf_Inr)
  then have run: "ds_generate amp0 rough P s = Inr s'" using s'(1) by (simp only: P1)
  have len: "length (ds_buf s') = nat (P * P)" using s'(2) by (simp add: level_ok_def)
  have "unit_iv v" if "v \<in> set (ds_buf s')" for v
  proof -
    from that obtain j where j: "j < length (ds_buf s')" "v = ds_buf s' ! j"
      by (auto simp: in_set_conv_nth)
    define y where "y = int j div P"
    define x where "x = int j mod P"
    have jP: "int j < P * P" using j(1) len by linarith
    have x: "0 \<le> x" "x < P" using P2 by (auto simp: x_def)
    have yx: "y * P + x = int j" by (simp add: y_def x_def)
    have y0: "0 \<le> y" using P2 by (simp add: y_def pos_imp_zdiv_nonneg_iff)
    have y1: "y < P"
    proof (rule ccontr)
      assume "\<not> y < P"
      then have "P * P \<le> y * P" using P2 by (intro mult_right_mono) auto
      then show False using yx x(1) jP by linarith
    qed
    note y = y0 y1
    have "nat (y * P + x) = j" using yx by simp
    then show ?thesis using s'(2) x y j(2) by (auto simp: level_ok_def)
  qed
  with run len show ?thesis by blast
qed

lemma lerp_unit:
  assumes "unit_iv a" "unit_iv b" "0 \<le> f" "f \<le> 1"
  shows "unit_iv (a * (1 - f) + b * f)"
proof -
  have a: "0 \<le> a" "a \<le> 1" and b: "0 \<le> b" "b \<le> 1" using assms(1,2) by (auto simp: unit_iv_def)
  have "0 \<le> a * (1 - f)" "0 \<le> b * f" using a b assms(3,4) by auto
  moreover have "a * (1 - f) \<le> 1 - f" using mult_right_mono [of a 1 "1 - f"] a assms(4) by simp
  moreover have "b * f \<le> f" using mult_right_mono [of b 1 f] b assms(3) by simp
  ultimately have "0 \<le> a * (1 - f) + b * f" "a * (1 - f) + b * f \<le> 1" by linarith+
  then show ?thesis by (simp add: unit_iv_def)
qed

lemma resample_spec_at_unit:
  assumes "1 \<le> P" "length src = nat (P * P)" "\<forall>v \<in> set src. unit_iv v"
    "1 \<le> W" "0 \<le> x" "x < W" "1 \<le> H" "0 \<le> y" "y < H"
  shows "unit_iv (resample_spec_at src P W H x y)"
proof -
  define dX where "dX = (if W = 1 then 1 else W - 1)"
  define dY where "dY = (if H = 1 then 1 else H - 1)"
  have dXs: "(if W = 1 then 1 else real_of_int (W - 1)) = real_of_int dX"
    and dYs: "(if H = 1 then 1 else real_of_int (H - 1)) = real_of_int dY"
    by (auto simp: dX_def dY_def)
  define u where "u = src_coord x P (real_of_int dX)"
  define v where "v = src_coord y P (real_of_int dY)"
  have hx: "x \<le> dX" "1 \<le> dX" using assms(4,6) by (auto simp: dX_def)
  have hy: "y \<le> dY" "1 \<le> dY" using assms(7,9) by (auto simp: dY_def)
  have x0: "0 \<le> \<lfloor>u\<rfloor>" "\<lfloor>u\<rfloor> < P"
    unfolding u_def by (rule src_coord_floor_range [OF assms(5) hx assms(1)])+
  have y0: "0 \<le> \<lfloor>v\<rfloor>" "\<lfloor>v\<rfloor> < P"
    unfolding v_def by (rule src_coord_floor_range [OF assms(8) hy assms(1)])+
  have x1: "0 \<le> min (\<lfloor>u\<rfloor> + 1) (P - 1)" "min (\<lfloor>u\<rfloor> + 1) (P - 1) < P"
    using x0 assms(1) by auto
  have y1: "0 \<le> min (\<lfloor>v\<rfloor> + 1) (P - 1)" "min (\<lfloor>v\<rfloor> + 1) (P - 1) < P"
    using y0 assms(1) by auto
  have cell: "unit_iv (src ! nat (b * P + a))" if "0 \<le> b" "b < P" "0 \<le> a" "a < P" for a b
  proof -
    have "nat (b * P + a) < length src"
      using cell_in_buf [OF assms(2) that] by linarith
    then show ?thesis using assms(3) by simp
  qed
  have fx: "0 \<le> u - real_of_int \<lfloor>u\<rfloor>" "u - real_of_int \<lfloor>u\<rfloor> \<le> 1" using frac_range [of u] by auto
  have fy: "0 \<le> v - real_of_int \<lfloor>v\<rfloor>" "v - real_of_int \<lfloor>v\<rfloor> \<le> 1" using frac_range [of v] by auto
  have eq: "resample_spec_at src P W H x y =
      (src ! nat (\<lfloor>v\<rfloor> * P + \<lfloor>u\<rfloor>) * (1 - (u - real_of_int \<lfloor>u\<rfloor>))
        + src ! nat (\<lfloor>v\<rfloor> * P + min (\<lfloor>u\<rfloor> + 1) (P - 1)) * (u - real_of_int \<lfloor>u\<rfloor>))
         * (1 - (v - real_of_int \<lfloor>v\<rfloor>))
      + (src ! nat (min (\<lfloor>v\<rfloor> + 1) (P - 1) * P + \<lfloor>u\<rfloor>) * (1 - (u - real_of_int \<lfloor>u\<rfloor>))
        + src ! nat (min (\<lfloor>v\<rfloor> + 1) (P - 1) * P + min (\<lfloor>u\<rfloor> + 1) (P - 1)) * (u - real_of_int \<lfloor>u\<rfloor>))
         * (v - real_of_int \<lfloor>v\<rfloor>)"
    unfolding resample_spec_at_def Let_def dXs dYs u_def v_def src_coord_def by (rule refl)
  show ?thesis unfolding eq
    by (intro lerp_unit cell x0 y0 x1 y1 fx fy)
qed

lemma set_concat_rows:
  "set (concat (map (\<lambda>y. map (\<lambda>x. f x y) xs) ys)) = {f x y | x y. x \<in> set xs \<and> y \<in> set ys}"
  by auto

lemma geo_resample_unit:
  assumes "2 \<le> W" "2 \<le> H" "1 \<le> P" "length src = nat (P * P)" "\<forall>v \<in> set src. unit_iv v"
  shows "\<exists>m. geo_resample_bilinear src P W H = Inr m \<and> length m = nat W * nat H
           \<and> (\<forall>v \<in> set m. unit_iv v)"
proof -
  let ?m = "concat (map (\<lambda>y. map (\<lambda>x. resample_spec_at src P W H (int x) (int y)) [0..<nat W])
                            [0..<nat H])"
  have run: "geo_resample_bilinear src P W H = Inr ?m"
    by (rule geo_resample_bilinear_eq [OF assms(1-4)])
  have len: "length ?m = nat W * nat H" by (simp add: length_concat_rows mult.commute)
  have "unit_iv v" if "v \<in> set ?m" for v
  proof -
    from that obtain x y where xy: "v = resample_spec_at src P W H (int x) (int y)"
      "x < nat W" "y < nat H" by auto
    have "unit_iv (resample_spec_at src P W H (int x) (int y))"
      using assms(1,2) xy(2,3) by (intro resample_spec_at_unit [OF assms(3-5)]) auto
    then show ?thesis by (simp add: xy(1))
  qed
  with run len show ?thesis by blast
qed

lemma for_each_total:
  assumes "\<And>i s. i \<in> set xs \<Longrightarrow> I s \<Longrightarrow> \<exists>s'. body i s = Inr s' \<and> I s'" and "I s"
  shows "\<exists>s'. for_each xs body s = Inr s' \<and> I s'"
  using assms
proof (induction xs arbitrary: s)
  case Nil
  then show ?case by simp
next
  case (Cons x xs)
  from Cons.prems(1) [of x s] Cons.prems(2) obtain s1 where s1: "body x s = Inr s1" "I s1" by auto
  have "\<exists>s'. for_each xs body s1 = Inr s' \<and> I s'"
    by (rule Cons.IH [OF _ s1(2)]) (rule Cons.prems(1), auto)
  then show ?case using s1(1) by simp
qed

lemma collect_total:
  assumes "\<And>m. m \<in> set ms \<Longrightarrow> \<exists>v. m = Inr v \<and> Q v"
  shows "\<exists>vs. collect ms = Inr vs \<and> length vs = length ms \<and> (\<forall>v \<in> set vs. Q v)"
  using assms
proof (induction ms)
  case Nil
  then show ?case by simp
next
  case (Cons m ms)
  from Cons.prems [of m] obtain v where v: "m = Inr v" "Q v" by auto
  from Cons.IH Cons.prems obtain vs where vs: "collect ms = Inr vs" "length vs = length ms"
    "\<forall>v \<in> set vs. Q v" by auto
  have "collect (m # ms) = Inr (v # vs)" using v(1) vs(1) by simp
  then show ?case using v(2) vs(2,3) by auto
qed

lemma collect_elements:
  "collect ms = Inr vs \<Longrightarrow> \<forall>v \<in> set vs. Inr v \<in> set ms"
proof (induction ms arbitrary: vs)
  case Nil
  then show ?case by simp
next
  case (Cons m ms)
  from Cons.prems obtain a as where a: "m = Inr a" "collect ms = Inr as" "vs = a # as"
    by (auto simp: thenf_eq_Inr)
  then show ?case using Cons.IH [OF a(2)] by auto
qed

lemma clamp_idx_range: "1 \<le> n \<Longrightarrow> 0 \<le> clamp_idx c n \<and> clamp_idx c n < n"
  by (simp add: clamp_idx_def Let_def)

definition acc_ok :: "real \<times> int \<Rightarrow> bool" where
  "acc_ok acc \<longleftrightarrow> 0 \<le> snd acc \<and> 0 \<le> fst acc \<and> fst acc \<le> real_of_int (snd acc)"

lemma window_sum_ok:
  assumes "1 \<le> W" "1 \<le> H" "length src = nat (W * H)" "\<forall>v \<in> set src. unit_iv v"
  shows "\<exists>acc. window_sum src W H r x y = Inr acc \<and> acc_ok acc"
proof -
  have WH: "int (length src) = W * H" using assms(1-3) by simp
  have step: "\<exists>acc'. thenf (rd src (clamp_idx yy H * W + clamp_idx xx W))
                 (\<lambda>v. Inr (fst acc + v, snd acc + 1)) = Inr acc' \<and> acc_ok acc'"
    if "acc_ok acc" for yy xx acc
  proof -
    note cy = clamp_idx_range [OF assms(2), of yy] and cx = clamp_idx_range [OF assms(1), of xx]
    have i: "0 \<le> clamp_idx yy H * W + clamp_idx xx W" "clamp_idx yy H * W + clamp_idx xx W < W * H"
      using pixel_index_range [of "clamp_idx xx W" W "clamp_idx yy H" H] cx cy by auto
    then have rd: "rd src (clamp_idx yy H * W + clamp_idx xx W)
        = Inr (src ! nat (clamp_idx yy H * W + clamp_idx xx W))"
      using WH by (intro rd_in_range) auto
    have "nat (clamp_idx yy H * W + clamp_idx xx W) < length src" using i WH by linarith
    then have "unit_iv (src ! nat (clamp_idx yy H * W + clamp_idx xx W))" using assms(4) by simp
    then show ?thesis using that unfolding rd thenf_Inr by (simp add: acc_ok_def unit_iv_def)
  qed
  have row: "\<exists>acc'. for_each [x - r..x + r] (\<lambda>xx acc.
                 thenf (rd src (clamp_idx yy H * W + clamp_idx xx W))
                   (\<lambda>v. Inr (fst acc + v, snd acc + 1))) acc = Inr acc' \<and> acc_ok acc'"
    if "acc_ok acc" for yy acc
    by (rule for_each_total [where I = acc_ok, OF _ that]) (rule step)
  have "\<exists>acc. for_each [y - r..y + r] (\<lambda>yy. for_each [x - r..x + r] (\<lambda>xx acc.
                 thenf (rd src (clamp_idx yy H * W + clamp_idx xx W))
                   (\<lambda>v. Inr (fst acc + v, snd acc + 1)))) (0, 0) = Inr acc \<and> acc_ok acc"
  proof (rule for_each_total [where I = acc_ok])
    show "acc_ok (0, 0)" by (simp add: acc_ok_def)
  next
    fix i :: int and acc :: "real \<times> int"
    assume "acc_ok acc"
    then show "\<exists>acc'. for_each [x - r..x + r] (\<lambda>xx acc.
                 thenf (rd src (clamp_idx i H * W + clamp_idx xx W))
                   (\<lambda>v. Inr (fst acc + v, snd acc + 1))) acc = Inr acc' \<and> acc_ok acc'"
      by (rule row)
  qed
  then show ?thesis by (simp add: window_sum_def)
qed

lemma box_cell_ok:
  assumes "1 \<le> W" "1 \<le> H" "length src = nat (W * H)" "\<forall>v \<in> set src. unit_iv v"
  shows "\<exists>v. box_cell src W H r x y = Inr v \<and> unit_iv v"
proof -
  from window_sum_ok [OF assms, of r x y] obtain sum cnt where
    a: "window_sum src W H r x y = Inr (sum, cnt)" "acc_ok (sum, cnt)" by auto
  have "unit_iv (sum / real_of_int cnt)"
  proof (cases "cnt = 0")
    case True
    then show ?thesis by (simp add: unit_iv_def)
  next
    case False
    then have "0 < real_of_int cnt" using a(2) by (simp add: acc_ok_def)
    then show ?thesis using a(2) by (simp add: acc_ok_def unit_iv_def divide_le_eq)
  qed
  then show ?thesis by (simp add: box_cell_def a(1))
qed

lemma length_concat_uniform:
  "\<forall>r \<in> set rows. length r = w \<Longrightarrow> length (concat rows) = length rows * w"
  by (induction rows) auto

lemma box_pass_ok:
  assumes "1 \<le> W" "1 \<le> H" "length src = nat (W * H)" "\<forall>v \<in> set src. unit_iv v"
  shows "\<exists>dst. box_pass src W H r = Inr dst \<and> length dst = nat (W * H) \<and> (\<forall>v \<in> set dst. unit_iv v)"
proof -
  have row: "\<exists>vs. m = Inr vs \<and> (length vs = nat W \<and> (\<forall>v \<in> set vs. unit_iv v))"
    if "m \<in> set (map (\<lambda>y. collect (map (\<lambda>x. box_cell src W H r (int x) (int y)) [0..<nat W]))
                         [0..<nat H])" for m
  proof -
    from that obtain y where m: "m = collect (map (\<lambda>x. box_cell src W H r (int x) (int y)) [0..<nat W])"
      by auto
    have "\<exists>vs. collect (map (\<lambda>x. box_cell src W H r (int x) (int y)) [0..<nat W]) = Inr vs
            \<and> length vs = length (map (\<lambda>x. box_cell src W H r (int x) (int y)) [0..<nat W])
            \<and> (\<forall>v \<in> set vs. unit_iv v)"
      by (rule collect_total) (auto intro: box_cell_ok [OF assms])
    then show ?thesis by (auto simp: m)
  qed
  have "\<exists>rows. collect (map (\<lambda>y. collect (map (\<lambda>x. box_cell src W H r (int x) (int y)) [0..<nat W]))
                         [0..<nat H]) = Inr rows
          \<and> length rows = length (map (\<lambda>y. collect (map (\<lambda>x. box_cell src W H r (int x) (int y))
                         [0..<nat W])) [0..<nat H])
          \<and> (\<forall>vs \<in> set rows. length vs = nat W \<and> (\<forall>v \<in> set vs. unit_iv v))"
    by (rule collect_total) (rule row)
  then obtain rows where rows:
    "collect (map (\<lambda>y. collect (map (\<lambda>x. box_cell src W H r (int x) (int y)) [0..<nat W]))
                         [0..<nat H]) = Inr rows"
    "length rows = nat H" "\<forall>vs \<in> set rows. length vs = nat W \<and> (\<forall>v \<in> set vs. unit_iv v)"
    by auto
  have "box_pass src W H r = Inr (concat rows)" by (simp add: box_pass_def rows(1))
  moreover have "length (concat rows) = nat (W * H)"
    using length_concat_uniform [of rows "nat W"] rows(2,3) assms(1,2)
    by (simp add: nat_mult_distrib mult.commute)
  moreover have "\<forall>v \<in> set (concat rows). unit_iv v" using rows(3) by auto
  ultimately show ?thesis by blast
qed

lemma copy_cells_eq:
  assumes "length dst = nat W * nat H" "length src = nat W * nat H"
  shows "copy_cells dst src W H = Inr src"
proof -
  define n where "n = nat W * nat H"
  have "for_each [0..<k] (\<lambda>i b. thenf (rd src (int i)) (\<lambda>v. wr b (int i) v)) dst
          = Inr (take k src @ drop k dst)" if "k \<le> n" for k
    using that
  proof (induction k)
    case 0
    then show ?case by simp
  next
    case (Suc k)
    have k: "k < length src" "k < length dst" using Suc.prems assms by (auto simp: n_def)
    have d: "drop k dst = dst ! k # drop (Suc k) dst" using k(2) by (simp add: Cons_nth_drop_Suc)
    have "(take k src @ drop k dst)[k := src ! k] = take k src @ (src ! k # drop (Suc k) dst)"
      using k(1) by (simp add: list_update_append d)
    also have "\<dots> = take (Suc k) src @ drop (Suc k) dst"
      using k(1) by (simp add: take_Suc_conv_app_nth)
    finally have "(take k src @ drop k dst)[k := src ! k] = take (Suc k) src @ drop (Suc k) dst" .
    then show ?case using Suc k by (simp add: for_each_snoc rd_def wr_def)
  qed
  from this [of n] show ?thesis using assms by (simp add: copy_cells_def n_def)
qed

lemma smooth_passes_ok:
  assumes "1 \<le> W" "1 \<le> H"
  shows "length buf = nat (W * H) \<Longrightarrow> \<forall>v \<in> set buf. unit_iv v \<Longrightarrow>
         \<exists>m. smooth_passes ok W H ps buf = Inr m \<and> length m = nat (W * H) \<and> (\<forall>v \<in> set m. unit_iv v)"
proof (induction ps arbitrary: buf)
  case Nil
  then show ?case by simp
next
  case (Cons p ps)
  show ?case
  proof (cases "ok p")
    case False
    then show ?thesis using Cons.prems by simp
  next
    case True
    from box_pass_ok [OF assms Cons.prems, of 1] obtain tmp where tmp:
      "box_pass buf W H 1 = Inr tmp" "length tmp = nat (W * H)" "\<forall>v \<in> set tmp. unit_iv v" by blast
    have n: "nat (W * H) = nat W * nat H" using assms by (simp add: nat_mult_distrib)
    have cp: "copy_cells buf tmp W H = Inr tmp"
      using Cons.prems(1) tmp(2) unfolding n by (rule copy_cells_eq)
    from Cons.IH [OF tmp(2,3)] show ?thesis using True tmp(1) cp by simp
  qed
qed

lemma smooth_box_ok:
  assumes "1 \<le> W" "1 \<le> H" "length buf = nat (W * H)" "\<forall>v \<in> set buf. unit_iv v"
  shows "\<exists>m. smooth_box buf W H passes ok = Inr m \<and> length m = nat (W * H) \<and> (\<forall>v \<in> set m. unit_iv v)"
  using smooth_passes_ok [OF assms, of ok "[0..<nat passes]"] assms(3,4)
  by (simp add: smooth_box_def)

lemma geo_terrain_unit:
  assumes "2 \<le> GRID_W cfg" "2 \<le> GRID_H cfg" "P = 2 ^ n + 1"
  shows "\<exists>m. geo_terrain cfg env P = Inr m \<and> length m = nat (GRID_W cfg * GRID_H cfg)
           \<and> (\<forall>v \<in> set m. unit_iv v)"
proof -
  let ?s = "\<lparr>ds_buf = map (ds_junk env) [0..<nat (P * P)], rng_state = rng_srand (SEED cfg)\<rparr>"
  have P1: "1 \<le> P" using assms(3) by simp
  have W1: "1 \<le> GRID_W cfg" and H1: "1 \<le> GRID_H cfg" using assms(1,2) by auto
  have n: "nat (GRID_W cfg) * nat (GRID_H cfg) = nat (GRID_W cfg * GRID_H cfg)"
    using W1 H1 by (simp add: nat_mult_distrib)
  have "length (ds_buf ?s) = nat (P * P)" by simp
  from ds_generate_ok [OF assms(3) this, of "AMP0 cfg" "ROUGH cfg"]
  obtain ds where ds: "ds_generate (AMP0 cfg) (ROUGH cfg) P ?s = Inr ds"
    "length (ds_buf ds) = nat (P * P)" "\<forall>v \<in> set (ds_buf ds). unit_iv v" by blast
  from geo_resample_unit [OF assms(1,2) P1 ds(2,3)]
  obtain m where m: "geo_resample_bilinear (ds_buf ds) P (GRID_W cfg) (GRID_H cfg) = Inr m"
    "length m = nat (GRID_W cfg * GRID_H cfg)" "\<forall>v \<in> set m. unit_iv v"
    unfolding n by blast
  show ?thesis
  proof (cases "SMOOTH_PASSES cfg > 0")
    case False
    then show ?thesis using ds(1) m by (simp add: geo_terrain_def)
  next
    case True
    from smooth_box_ok [OF W1 H1 m(2,3), of "SMOOTH_PASSES cfg" "tmp_ok env"]
    show ?thesis using True ds(1) m(1) by (simp add: geo_terrain_def)
  qed
qed

lemma geo_side_form: "geo_side W H = Inr P \<Longrightarrow> \<exists>n. P = 2 ^ n + 1"
  by (auto simp: geo_side_def Let_def split: sum.splits)

lemma print_cell_unit:
  assumes "\<forall>v \<in> set m. unit_iv v" "unit_iv (WATER_LEVEL cfg)" "print_cell cfg m water i = Inr v"
  shows "unit_iv v"
proof -
  from assms(3) obtain a where a: "rd m i = Inr a" unfolding print_cell_def thenf_eq_Inr by blast
  then have "a \<in> set m" by (auto simp: rd_def split: if_splits)
  then have ua: "unit_iv a" using assms(1) by simp
  from assms(3) a have "v = a \<or> v = WATER_LEVEL cfg"
    by (auto simp: print_cell_def thenf_eq_Inr split: if_splits option.splits)
  then show ?thesis using ua assms(2) by auto
qed

lemma geo_main_printed_unit:
  assumes "geo_main cfg env = Inr r" "2 \<le> GRID_W cfg" "2 \<le> GRID_H cfg" "unit_iv (WATER_LEVEL cfg)"
  shows "\<forall>v \<in> set (printed r). unit_iv v"
proof -
  from assms(1) obtain P where P: "geo_side (GRID_W cfg) (GRID_H cfg) = Inr P"
    unfolding geo_main_def thenf_eq_Inr by blast
  from geo_side_form [OF P] obtain n where n: "P = 2 ^ n + 1" by blast
  from geo_terrain_unit [OF assms(2,3) n, of env]
  obtain m where m: "geo_terrain cfg env P = Inr m" "\<forall>v \<in> set m. unit_iv v" by blast
  show ?thesis
  proof (cases "printed r = []")
    case True
    then show ?thesis by simp
  next
    case False
    from assms(1) False obtain water where w: "geo_print cfg m water = Inr (printed r)"
      unfolding geo_main_def P thenf_Inr m(1)
      by (auto simp: thenf_eq_Inr split: if_splits)
    then have c: "collect (map (\<lambda>i. print_cell cfg m water (int i))
                     [0..<nat (GRID_W cfg) * nat (GRID_H cfg)]) = Inr (printed r)"
      using False by (auto simp: geo_print_def split: if_splits)
    show ?thesis
    proof
      fix v assume "v \<in> set (printed r)"
      with collect_elements [OF c] obtain i where "print_cell cfg m water (int i) = Inr v"
        by auto
      then show "unit_iv v" by (rule print_cell_unit [OF m(2) assms(4)])
    qed
  qed
qed

lemma normalize01_unit:
  assumes "grid \<noteq> []"
  shows "\<exists>g. normalize01 grid = Inr g \<and> length g = length grid \<and> (\<forall>v \<in> set g. unit_iv v)"
proof -
  from assms obtain g0 rest where g: "grid = g0 # rest" by (cases grid) auto
  define mn where "mn = Min (set grid)"
  define mx where "mx = Max (set grid)"
  have mm: "minmax_scan rest (g0, g0) = (mn, mx)" by (simp add: minmax_scan_eq g mn_def mx_def)
  show ?thesis
  proof (cases "mx - mn \<le> 1 / 10 ^ 12")
    case True
    then have "normalize01 grid = Inr (map (\<lambda>_. 1 / 2) grid)"
      unfolding normalize01_def g list.case mm by simp
    then show ?thesis by (auto simp: unit_iv_def)
  next
    case False
    then have pos: "0 < mx - mn" by (smt (verit) divide_nonneg_nonneg zero_le_power)
    have run: "normalize01 grid = Inr (map (\<lambda>v. (v - mn) / (mx - mn)) grid)"
      using False unfolding normalize01_def g list.case mm by simp
    have "unit_iv ((v - mn) / (mx - mn))" if "v \<in> set grid" for v
    proof -
      have "mn \<le> v" "v \<le> mx" using that by (auto simp: mn_def mx_def)
      then show ?thesis using pos by (simp add: unit_iv_def divide_le_eq)
    qed
    then show ?thesis using run by auto
  qed
qed

lemma apply_gamma_unit:
  assumes "\<forall>v \<in> set g. unit_iv v"
  shows "\<forall>v \<in> set (apply_gamma g gamma). unit_iv v"
proof (cases "gamma \<le> 0 \<or> \<bar>gamma - 1\<bar> < 1 / 10 ^ 12")
  case True
  then show ?thesis using assms by (simp add: apply_gamma_def)
next
  case False
  then have gpos: "0 \<le> 1 / gamma" by simp
  have "unit_iv (c powr (1 / gamma))" if "0 \<le> c" "c \<le> 1" for c :: real
    using powr_le1 [OF gpos, of c] that by (simp add: unit_iv_def)
  then show ?thesis using False by (auto simp: apply_gamma_def Let_def)
qed

lemma plasma_finish_unit:
  assumes "dst \<noteq> []"
  shows "\<exists>g. plasma_finish dst gamma = Inr g \<and> length g = length dst \<and> (\<forall>v \<in> set g. unit_iv v)"
proof -
  from normalize01_unit [OF assms] obtain g where g: "normalize01 dst = Inr g"
    "length g = length dst" "\<forall>v \<in> set g. unit_iv v" by blast
  have "length (apply_gamma g gamma) = length g" by (simp add: apply_gamma_def)
  then show ?thesis using g apply_gamma_unit [OF g(3), of gamma] by (simp add: plasma_finish_def)
qed



end
